theory Spec2Isabelle
  imports Complex_Main "HOL-Library.Word" "HOL-Library.Sublist"
begin

section \<open>JavaScript strings and arrays\<close>

text \<open>
  A JavaScript string is a sequence of UTF-16 code units, and \<open>length\<close>, \<open>split\<close>,
  \<open>slice\<close> and \<open>trim\<close> all work on code units. The sentinel of the sentence chunker,
  U+2704, is one code unit (9988).
\<close>

type_synonym code_unit = "16 word"
type_synonym jsstring = "code_unit list"

text \<open>An ASCII literal as a JavaScript string.\<close>

definition str :: "string \<Rightarrow> jsstring" where
  "str s = map of_char s"

text \<open>
  \<open>Array.prototype.join(d)\<close> on an array of strings: the elements with \<open>d\<close> between
  them; the empty array gives the empty string.
\<close>

fun js_join :: "'a list list \<Rightarrow> 'a list \<Rightarrow> 'a list" where
  "js_join [] d = []"
| "js_join [x] d = x"
| "js_join (x # y # ys) d = x @ d @ js_join (y # ys) d"

text \<open>
  \<open>String.prototype.split(sep)\<close> with a string separator and no limit. For a
  non-empty separator the occurrences are found from left to right, each search starting
  after the previous occurrence; \<open>cur\<close> is the piece read so far. For the empty
  separator the result is the list of the code units (and \<open>[]\<close> for the empty string).
\<close>

function split_from :: "'a list \<Rightarrow> 'a list \<Rightarrow> 'a list \<Rightarrow> 'a list list" where
  "split_from d cur [] = [cur]"
| "split_from d cur (x # xs) =
     (if d \<noteq> [] \<and> prefix d (x # xs)
      then cur # split_from d [] (drop (length d) (x # xs))
      else split_from d (cur @ [x]) xs)"
  by pat_completeness auto
termination
  by (relation "measure (\<lambda>(d, cur, s). length s)") auto

definition js_split :: "'a list \<Rightarrow> 'a list \<Rightarrow> 'a list list" where
  "js_split s d = (if d = [] then map (\<lambda>x. [x]) s else split_from d [] s)"

text \<open>
  \<open>slice(start, fin)\<close> of arrays and strings: a negative index counts from the end,
  both indices are clamped to the length, and an empty range gives the empty result.
\<close>

definition js_slice :: "'a list \<Rightarrow> int \<Rightarrow> int \<Rightarrow> 'a list" where
  "js_slice xs start fin =
     (let len = int (length xs);
          k = (if start < 0 then max (len + start) 0 else min start len);
          final = (if fin < 0 then max (len + fin) 0 else min fin len)
      in take (nat (final - k)) (drop (nat k) xs))"

text \<open>
  The code units that \<open>String.prototype.trim\<close> strips: ECMAScript's WhiteSpace
  (TAB, VT, FF, SP, NBSP, ZWNBSP and the space separators) and LineTerminator.
\<close>

definition isWhiteSpace :: "code_unit \<Rightarrow> bool" where
  "isWhiteSpace c =
     (c = 0x9 \<or> c = 0xA \<or> c = 0xB \<or> c = 0xC \<or> c = 0xD \<or> c = 0x20 \<or> c = 0xA0 \<or>
      c = 0x1680 \<or> (0x2000 \<le> c \<and> c \<le> 0x200A) \<or> c = 0x2028 \<or> c = 0x2029 \<or>
      c = 0x202F \<or> c = 0x205F \<or> c = 0x3000 \<or> c = 0xFEFF)"

definition js_trim :: "jsstring \<Rightarrow> jsstring" where
  "js_trim s = rev (dropWhile isWhiteSpace (rev (dropWhile isWhiteSpace s)))"

section \<open>Data model\<close>

text \<open>
  \<open>Chunk\<close> is the base record of both pipelines; \<open>Sentence\<close> has the same four
  fields; \<open>SentenceChunk\<close> extends \<open>Chunk\<close> with its sentences. Offsets are
  indices into the text, token counts are JavaScript numbers (integers here).
\<close>

record Chunk =
  "text" :: jsstring
  startIndex :: nat
  endIndex :: nat
  tokenCount :: int

type_synonym Sentence = Chunk

record SentenceChunk = Chunk +
  sentences :: "Sentence list"

text \<open>
  The tokenizer is an external collaborator and a parameter of every chunker: its exact
  count, its encoder and its batch decoder.
\<close>

record Tokenizer =
  countTokens :: "jsstring \<Rightarrow> nat"
  encode :: "jsstring \<Rightarrow> nat list"
  decodeBatch :: "nat list list \<Rightarrow> jsstring list"

text \<open>
  Modelled from the spec: the tokenizer class is not among the sources. Its batch count
  returns the counts of the texts, in the same order and of the same length.
\<close>

definition countTokensBatch :: "Tokenizer \<Rightarrow> jsstring list \<Rightarrow> nat list" where
  "countTokensBatch tk texts = map (countTokens tk) texts"

text \<open>
  A character-level tokenizer, one token per code unit: the instance used where a
  concrete tokenizer is needed.
\<close>

definition characterTokenizer :: Tokenizer where
  "characterTokenizer =
     \<lparr>countTokens = length, encode = map unat, decodeBatch = map (map of_nat)\<rparr>"

text \<open>Thrown errors and console warnings are values of the model.\<close>

datatype error = Error string | TypeError

datatype warning = ApproximateDeprecated | MinSentencesNotMet int nat

datatype IncludeDelim = Prev | Next | Null | Other jsstring

text \<open>
  The fields shared by both chunkers (\<open>tokenizer\<close> and \<open>chunkSize\<close>), extended by the
  fields of each class.
\<close>

record Chunker =
  tokenizer :: Tokenizer
  chunkSize :: int

record SentenceChunker = Chunker +
  chunkOverlap :: int
  minSentencesPerChunk :: int
  minCharactersPerSentence :: int
  approximate :: bool
  delim :: "jsstring list"
  includeDelim :: IncludeDelim
  sep :: jsstring

section \<open>SentenceChunker\<close>

subsection \<open>Construction\<close>

text \<open>
  The private constructor: the checks in the order of the source, each throwing. The
  delimiter argument is \<open>None\<close> for \<open>null\<close> or \<open>undefined\<close>; an array, also the
  empty one, is truthy in JavaScript and passes \<open>!delim\<close>.
\<close>

definition SentenceChunker_new ::
  "Tokenizer \<Rightarrow> int \<Rightarrow> int \<Rightarrow> int \<Rightarrow> int \<Rightarrow> bool \<Rightarrow> jsstring list option \<Rightarrow> IncludeDelim
     \<Rightarrow> error + (SentenceChunker \<times> warning list)" where
  "SentenceChunker_new tk cs co msc mcs approx dl inc =
     (if cs \<le> 0 then Inl (Error ''chunkSize must be greater than 0'')
      else if co < 0 then Inl (Error ''chunkOverlap must be non-negative'')
      else if co \<ge> cs then Inl (Error ''chunkOverlap must be less than chunkSize'')
      else if msc \<le> 0 then Inl (Error ''minSentencesPerChunk must be greater than 0'')
      else if mcs \<le> 0 then Inl (Error ''minCharactersPerSentence must be greater than 0'')
      else case dl of
        None \<Rightarrow> Inl (Error ''delim must be a list of strings or a string'')
      | Some ds \<Rightarrow>
          if inc \<noteq> Prev \<and> inc \<noteq> Next \<and> inc \<noteq> Null
          then Inl (Error ''includeDelim must be prev, next or null'')
          else Inr (\<lparr>tokenizer = tk, chunkSize = cs, chunkOverlap = co,
                      minSentencesPerChunk = msc, minCharactersPerSentence = mcs,
                      approximate = approx, delim = ds, includeDelim = inc,
                      sep = [0x2704]\<rparr>,
                    if approx then [ApproximateDeprecated] else []))"

subsection \<open>Splitting a text into sentences\<close>

text \<open>
  \<open>_splitText\<close>: every delimiter in turn is replaced by itself with the sentinel after
  it (\<open>prev\<close>), before it (\<open>next\<close>) or instead of it; the text is split at the
  sentinel; the pieces are folded from the left, a piece starting a new sentence once the
  current one has \<open>minCharactersPerSentence\<close> code units.
\<close>

definition markDelim :: "IncludeDelim \<Rightarrow> jsstring \<Rightarrow> jsstring \<Rightarrow> jsstring \<Rightarrow> jsstring" where
  "markDelim inc sp t c =
     (if inc = Prev then js_join (js_split t c) (c @ sp)
      else if inc = Next then js_join (js_split t c) (sp @ c)
      else js_join (js_split t c) sp)"

fun mergeShort :: "int \<Rightarrow> jsstring list \<Rightarrow> jsstring list \<Rightarrow> jsstring \<Rightarrow> jsstring list \<times> jsstring" where
  "mergeShort m [] sents current = (sents, current)"
| "mergeShort m (s # ss) sents current =
     (if current = [] then mergeShort m ss sents s
      else if int (length current) \<ge> m then mergeShort m ss (sents @ [current]) s
      else mergeShort m ss sents (current @ s))"

definition splitText :: "'a SentenceChunker_scheme \<Rightarrow> jsstring \<Rightarrow> jsstring list" where
  "splitText c txt =
     (let t = foldl (markDelim (includeDelim c) (sep c)) txt (delim c);
          splits = js_split t (sep c);
          (sents, current) = mergeShort (minCharactersPerSentence c) splits [] []
      in if current \<noteq> [] then sents @ [current] else sents)"

text \<open>\<open>_prepareSentences\<close>: running positions, one batched count, one record per text.\<close>

fun positionsFrom :: "nat \<Rightarrow> jsstring list \<Rightarrow> nat list" where
  "positionsFrom currentPos [] = []"
| "positionsFrom currentPos (sent # rest) = currentPos # positionsFrom (currentPos + length sent) rest"

definition prepareSentences :: "'a SentenceChunker_scheme \<Rightarrow> jsstring \<Rightarrow> Sentence list" where
  "prepareSentences c txt =
     (let sentenceTexts = splitText c txt in
      if sentenceTexts = [] then []
      else
        let positions = positionsFrom 0 sentenceTexts;
            tokenCounts = countTokensBatch (tokenizer c) sentenceTexts
        in map (\<lambda>i. \<lparr>text = sentenceTexts ! i, startIndex = positions ! i,
                      endIndex = positions ! i + length (sentenceTexts ! i),
                      tokenCount = int (tokenCounts ! i)\<rparr>)
               [0 ..< length sentenceTexts])"

subsection \<open>Packing sentences into chunks\<close>

text \<open>
  \<open>_createChunk\<close>: the texts joined with the empty string and counted again as a whole.
  Reading \<open>sentences[0]\<close> of an empty array throws a TypeError.
\<close>

definition createChunk :: "'a SentenceChunker_scheme \<Rightarrow> Sentence list \<Rightarrow> error + SentenceChunk" where
  "createChunk c sents =
     (case sents of
        [] \<Rightarrow> Inl TypeError
      | s # rest \<Rightarrow>
          let chunkText = js_join (map text sents) [];
              count = countTokens (tokenizer c) chunkText
          in Inr \<lparr>text = chunkText, startIndex = startIndex s,
                  endIndex = endIndex (last sents), tokenCount = int count,
                  sentences = sents\<rparr>)"

text \<open>
  \<open>_bisectLeft(arr, value, lo)\<close> with \<open>hi = arr.length\<close>. The source computes
  \<open>mid\<close> as \<open>(lo + hi) >>> 1\<close>, which is \<open>(lo + hi) div 2\<close> for arrays of fewer
  than \<open>2^31\<close> elements.
\<close>

function bisectLeft :: "int list \<Rightarrow> int \<Rightarrow> nat \<Rightarrow> nat \<Rightarrow> nat" where
  "bisectLeft arr v lo hi =
     (if lo < hi then
        (if arr ! ((lo + hi) div 2) < v
         then bisectLeft arr v ((lo + hi) div 2 + 1) hi
         else bisectLeft arr v lo ((lo + hi) div 2))
      else lo)"
  by pat_completeness auto

text \<open>The interval from \<open>lo\<close> to \<open>hi\<close> shrinks at every step.\<close>

lemma bisectLeft_terminates: "All bisectLeft_dom"
  by (relation "measure (\<lambda>(arr, v, lo, hi). hi - lo)") auto

termination bisectLeft
  by (rule bisectLeft_terminates)

declare bisectLeft.simps [simp del]

text \<open>The cumulative token counts: \<open>tokenSums[i]\<close> is the sum of the first \<open>i\<close> counts.\<close>

fun tokenSumsFrom :: "int \<Rightarrow> Sentence list \<Rightarrow> int list" where
  "tokenSumsFrom sm [] = [sm]"
| "tokenSumsFrom sm (s # rest) = sm # tokenSumsFrom (sm + tokenCount s) rest"

text \<open>
  The split index of one iteration, with the warning it logs when the minimum number of
  sentences cannot be met.
\<close>

definition chooseSplit ::
  "'a SentenceChunker_scheme \<Rightarrow> Sentence list \<Rightarrow> int list \<Rightarrow> nat \<Rightarrow> int \<times> warning list" where
  "chooseSplit c sents tokenSums pos =
     (let targetTokens = tokenSums ! pos + chunkSize c;
          splitIdx0 = int (bisectLeft tokenSums targetTokens pos (length tokenSums)) - 1;
          splitIdx1 = min splitIdx0 (int (length sents));
          splitIdx = max splitIdx1 (int pos + 1)
      in if splitIdx - int pos < minSentencesPerChunk c then
           (if int pos + minSentencesPerChunk c \<le> int (length sents)
            then (int pos + minSentencesPerChunk c, [])
            else (int (length sents),
                  [MinSentencesNotMet (minSentencesPerChunk c) (length sents - pos)]))
         else (splitIdx, []))"

text \<open>
  The overlap walk: backwards from \<open>splitIdx - 1\<close> while the index is above \<open>pos\<close>
  and the overlap budget is not used up; it returns the final \<open>overlapIdx\<close>.
\<close>

function overlapWalk :: "'a SentenceChunker_scheme \<Rightarrow> Sentence list \<Rightarrow> nat \<Rightarrow> int \<Rightarrow> int \<Rightarrow> int" where
  "overlapWalk c sents pos overlapIdx overlapTokens =
     (if overlapIdx > int pos \<and> overlapTokens < chunkOverlap c then
        (if overlapTokens + tokenCount (sents ! nat overlapIdx) + 1 > chunkOverlap c
         then overlapIdx
         else overlapWalk c sents pos (overlapIdx - 1)
                (overlapTokens + tokenCount (sents ! nat overlapIdx) + 1))
      else overlapIdx)"
  by pat_completeness auto

text \<open>The index of the walk decreases towards \<open>pos\<close>.\<close>

lemma overlapWalk_terminates: "All overlapWalk_dom"
  by (relation "measure (\<lambda>(c, sents, pos, overlapIdx, overlapTokens). nat (overlapIdx - int pos))") auto

termination overlapWalk
  by (rule overlapWalk_terminates)

declare overlapWalk.simps [simp del]

definition nextPos :: "'a SentenceChunker_scheme \<Rightarrow> Sentence list \<Rightarrow> nat \<Rightarrow> int \<Rightarrow> nat" where
  "nextPos c sents pos splitIdx =
     (if chunkOverlap c > 0 \<and> splitIdx < int (length sents)
      then nat (overlapWalk c sents pos (splitIdx - 1) 0 + 1)
      else nat splitIdx)"

text \<open>
  One iteration of the \<open>while (pos < sentences.length)\<close> loop on the state
  \<open>(pos, chunks, warnings)\<close>; a thrown error ends the loop.
\<close>

definition chunkStep ::
  "'a SentenceChunker_scheme \<Rightarrow> Sentence list \<Rightarrow> int list \<Rightarrow> nat \<times> SentenceChunk list \<times> warning list
     \<Rightarrow> error + (nat \<times> SentenceChunk list \<times> warning list)" where
  "chunkStep c sents tokenSums st =
     (case st of (pos, chunks, warns) \<Rightarrow>
        (case chooseSplit c sents tokenSums pos of (splitIdx, w) \<Rightarrow>
           (case createChunk c (js_slice sents (int pos) splitIdx) of
              Inl e \<Rightarrow> Inl e
            | Inr ch \<Rightarrow> Inr (nextPos c sents pos splitIdx, chunks @ [ch], warns @ w))))"

lemma overlapWalk_ge: "int pos \<le> i \<Longrightarrow> int pos \<le> overlapWalk c sents pos i t"
proof (induction c sents pos i t rule: overlapWalk.induct)
  case (1 c sents pos overlapIdx overlapTokens)
  then show ?case
    by (subst overlapWalk.simps) auto
qed

lemma chooseSplit_gt: "pos < length sents \<Longrightarrow> int pos < fst (chooseSplit c sents tokenSums pos)"
  by (auto simp: chooseSplit_def Let_def)

lemma nextPos_gt: "int pos < splitIdx \<Longrightarrow> pos < nextPos c sents pos splitIdx"
  using overlapWalk_ge[of pos "splitIdx - 1" c sents 0] by (auto simp: nextPos_def)

lemma chunkStep_progress:
  assumes "fst st < length sents" and "chunkStep c sents tokenSums st = Inr st'"
  shows "fst st < fst st'"
proof -
  obtain pos chunks warns where st: "st = (pos, chunks, warns)"
    by (cases st) auto
  obtain splitIdx w where cs: "chooseSplit c sents tokenSums pos = (splitIdx, w)"
    by (cases "chooseSplit c sents tokenSums pos") auto
  have "int pos < splitIdx"
    using chooseSplit_gt[where pos = pos and sents = sents and c = c and tokenSums = tokenSums]
      assms(1) st cs by simp
  then have "pos < nextPos c sents pos splitIdx"
    by (rule nextPos_gt)
  moreover have "fst st' = nextPos c sents pos splitIdx"
    using assms(2) st cs by (auto simp: chunkStep_def split: sum.splits)
  ultimately show ?thesis
    using st by simp
qed

function chunkLoop ::
  "'a SentenceChunker_scheme \<Rightarrow> Sentence list \<Rightarrow> int list \<Rightarrow> nat \<times> SentenceChunk list \<times> warning list
     \<Rightarrow> error + (SentenceChunk list \<times> warning list)" where
  "chunkLoop c sents tokenSums st =
     (if fst st < length sents then
        (case chunkStep c sents tokenSums st of
           Inl e \<Rightarrow> Inl e
         | Inr st' \<Rightarrow> chunkLoop c sents tokenSums st')
      else Inr (snd st))"
  by pat_completeness auto

text \<open>The cursor of the loop increases strictly, up to the number of sentences.\<close>

lemma chunkLoop_terminates: "All chunkLoop_dom"
proof (relation "measure (\<lambda>(c, sents, tokenSums, st). length sents - fst st)")
  show "wf (measure (\<lambda>(c, sents, tokenSums, st). length sents - fst st))"
    by simp
next
  fix c :: "'a SentenceChunker_scheme" and sents tokenSums st st'
  assume "fst st < length sents" and "chunkStep c sents tokenSums st = Inr st'"
  then show "((c, sents, tokenSums, st'), (c, sents, tokenSums, st))
               \<in> measure (\<lambda>(c, sents, tokenSums, st). length sents - fst st)"
    using chunkStep_progress[where st = st and st' = st' and c = c and sents = sents
                               and tokenSums = tokenSums]
    by simp
qed

termination chunkLoop
  by (rule chunkLoop_terminates)

declare chunkLoop.simps [simp del]

text \<open>\<open>chunk\<close>: the sequence of chunks, with the warnings logged on the way.\<close>

definition chunk :: "'a SentenceChunker_scheme \<Rightarrow> jsstring \<Rightarrow> error + (SentenceChunk list \<times> warning list)" where
  "chunk c txt =
     (if js_trim txt = [] then Inr ([], [])
      else
        let sents = prepareSentences c txt in
        if sents = [] then Inr ([], [])
        else chunkLoop c sents (tokenSumsFrom 0 sents) (0, [], []))"

section \<open>RecursiveChunker\<close>

subsection \<open>Rules, primitives and construction\<close>

text \<open>
  A level's \<open>delimiters\<close> is a string, an array of strings or \<open>undefined\<close>
  (\<open>None\<close>); its inclusion policy is the field \<open>levelIncludeDelim\<close>
  (\<open>includeDelim\<close> in the source).
\<close>

datatype Delimiters = DelimString jsstring | DelimArray "jsstring list"

record RecursiveLevel =
  whitespace :: bool
  delimiters :: "Delimiters option"
  levelIncludeDelim :: IncludeDelim

text \<open>
  Modelled from the spec: the class \<open>RecursiveRules\<close> is not among the sources. It is
  an ordered sequence of levels; \<open>rules.length\<close> is its depth and \<open>getLevel\<close>
  gives the level at an index, or \<open>undefined\<close> outside the sequence.
\<close>

type_synonym RecursiveRules = "RecursiveLevel list"

definition getLevel :: "RecursiveRules \<Rightarrow> nat \<Rightarrow> RecursiveLevel option" where
  "getLevel rs i = (if i < length rs then Some (rs ! i) else None)"

text \<open>
  The two primitives of the external WebAssembly package are parameters.
  \<open>split_offsets text delimiters includeDelim minChars\<close> gives the \<open>[start, end]\<close>
  pairs; \<open>merge_splits tokenCounts chunkSize combineWhitespace\<close> gives, for every merged
  chunk, its end index and its token count (\<open>result.indices[i]\<close> and
  \<open>result.tokenCounts[i]\<close> of the declaration).
\<close>

datatype SplitInclude = SplitPrev | SplitNext | SplitNone

record Wasm =
  split_offsets :: "jsstring \<Rightarrow> jsstring \<Rightarrow> SplitInclude \<Rightarrow> int \<Rightarrow> (nat \<times> nat) list"
  merge_splits :: "int list \<Rightarrow> int \<Rightarrow> bool \<Rightarrow> (nat \<times> int) list"

record RecursiveChunker = Chunker +
  rules :: RecursiveRules
  minCharactersPerChunk :: int

definition RecursiveChunker_new ::
  "Tokenizer \<Rightarrow> int \<Rightarrow> RecursiveRules \<Rightarrow> int \<Rightarrow> error + RecursiveChunker" where
  "RecursiveChunker_new tk cs rs mcc =
     (if cs \<le> 0 then Inl (Error ''chunkSize must be greater than 0'')
      else if mcc \<le> 0 then Inl (Error ''minCharactersPerChunk must be greater than 0'')
      else Inr \<lparr>tokenizer = tk, chunkSize = cs, rules = rs, minCharactersPerChunk = mcc\<rparr>)"

subsection \<open>Estimating, splitting and merging\<close>

text \<open>
  \<open>estimateTokenCount\<close>: \<open>Math.floor(text.length / 6.5)\<close> is
  \<open>(2 * length) div 13\<close>: the quotient of an integer by 6.5 is an integer or at least
  \<open>1/13\<close> away from one, far more than the rounding error of the division.
\<close>

definition estimateTokenCount :: "'a Chunker_scheme \<Rightarrow> jsstring \<Rightarrow> int" where
  "estimateTokenCount c txt =
     (let estimate = max 1 ((2 * int (length txt)) div 13)
      in if estimate > chunkSize c then chunkSize c + 1
         else int (countTokens (tokenizer c) txt))"

text \<open>
  The token windows of the final level: \<open>for (i = 0; i < encoded.length; i += chunkSize)\<close>.
  The constructor rejects \<open>chunkSize \<le> 0\<close>, for which the source loop would never
  advance; the model takes no window there.
\<close>

function tokenWindowsFrom :: "nat list \<Rightarrow> int \<Rightarrow> int \<Rightarrow> nat list list" where
  "tokenWindowsFrom encoded cs i =
     (if i < int (length encoded) \<and> 0 < cs
      then js_slice encoded i (i + cs) # tokenWindowsFrom encoded cs (i + cs)
      else [])"
  by pat_completeness auto

lemma tokenWindowsFrom_terminates: "All tokenWindowsFrom_dom"
  by (relation "measure (\<lambda>(encoded, cs, i). nat (int (length encoded) - i))") auto

termination tokenWindowsFrom
  by (rule tokenWindowsFrom_terminates)

declare tokenWindowsFrom.simps [simp del]

text \<open>\<open>splitText\<close> of the recursive chunker (\<open>splitTextR\<close> here).\<close>

definition splitTextR :: "Wasm \<Rightarrow> 'a RecursiveChunker_scheme \<Rightarrow> jsstring \<Rightarrow> RecursiveLevel \<Rightarrow> jsstring list" where
  "splitTextR w c txt level =
     (if whitespace level then
        map (\<lambda>(start, fin). js_slice txt (int start) (int fin))
            (split_offsets w txt [0x20] SplitNone 0)
      else case (case delimiters level of
                   None \<Rightarrow> None
                 | Some (DelimString d) \<Rightarrow> (if d = [] then None else Some d)
                 | Some (DelimArray ds) \<Rightarrow> Some (js_join ds [])) of
        Some delims \<Rightarrow>
          map (\<lambda>(start, fin). js_slice txt (int start) (int fin))
              (split_offsets w txt delims
                 (if levelIncludeDelim level = Prev then SplitPrev
                  else if levelIncludeDelim level = Next then SplitNext else SplitNone)
                 (minCharactersPerChunk c))
      | None \<Rightarrow>
          decodeBatch (tokenizer c)
            (tokenWindowsFrom (encode (tokenizer c) txt) (chunkSize c) 0))"

definition makeChunk :: "jsstring \<Rightarrow> int \<Rightarrow> nat \<Rightarrow> Chunk" where
  "makeChunk txt count startOffset =
     \<lparr>text = txt, startIndex = startOffset, endIndex = startOffset + length txt,
      tokenCount = count\<rparr>"

text \<open>
  \<open>mergeSplits\<close>: the merged strings are built from the end indices of
  \<open>merge_splits\<close>, joined with a space or with nothing.
\<close>

fun buildMerged :: "jsstring list \<Rightarrow> bool \<Rightarrow> nat \<Rightarrow> (nat \<times> int) list \<Rightarrow> jsstring list \<times> int list" where
  "buildMerged splits combineWhitespace currentIndex [] = ([], [])"
| "buildMerged splits combineWhitespace currentIndex ((endIdx, count) # rest) =
     (case buildMerged splits combineWhitespace endIdx rest of
        (merged, combinedTokenCounts) \<Rightarrow>
          (js_join (js_slice splits (int currentIndex) (int endIdx))
                   (if combineWhitespace then [0x20] else []) # merged,
           count # combinedTokenCounts))"

definition mergeSplits ::
  "Wasm \<Rightarrow> 'a Chunker_scheme \<Rightarrow> jsstring list \<Rightarrow> int list \<Rightarrow> bool \<Rightarrow> error + (jsstring list \<times> int list)" where
  "mergeSplits w c splits tokenCounts combineWhitespace =
     (if splits = [] \<or> tokenCounts = [] then Inr ([], [])
      else if length splits \<noteq> length tokenCounts
        then Inl (Error ''Mismatch between splits and token counts'')
      else if list_all (\<lambda>count. count > chunkSize c) tokenCounts then Inr (splits, tokenCounts)
      else Inr (buildMerged splits combineWhitespace 0
                  (merge_splits w tokenCounts (chunkSize c) combineWhitespace)))"

text \<open>
  The merge step of a level: none at the token level, with spaces at a whitespace level
  (a space is put before every merged piece but the first), plain at a delimiter level.
\<close>

definition mergeLevel ::
  "Wasm \<Rightarrow> 'a Chunker_scheme \<Rightarrow> RecursiveLevel \<Rightarrow> jsstring list \<Rightarrow> int list
     \<Rightarrow> error + (jsstring list \<times> int list)" where
  "mergeLevel w c currRule splits tokenCounts =
     (if delimiters currRule = None \<and> \<not> whitespace currRule then Inr (splits, tokenCounts)
      else if delimiters currRule = None \<and> whitespace currRule then
        (case mergeSplits w c splits tokenCounts True of
           Inl e \<Rightarrow> Inl e
         | Inr (merged, combinedTokenCounts) \<Rightarrow>
             Inr (take 1 merged @ map (\<lambda>t. 0x20 # t) (drop 1 merged), combinedTokenCounts))
      else mergeSplits w c splits tokenCounts False)"

subsection \<open>The recursion\<close>

text \<open>
  The loop over the merged pieces: an oversized piece is chunked by \<open>recurse\<close> (the
  call at the next level), any other becomes a chunk; the offset advances by the length
  of the piece. On every path \<open>merged\<close> and \<open>combinedTokenCounts\<close> have one entry
  per piece, so the loop reads them as pairs.
\<close>

fun processMerged ::
  "(jsstring \<Rightarrow> nat \<Rightarrow> error + Chunk list) \<Rightarrow> int \<Rightarrow> (jsstring \<times> int) list \<Rightarrow> nat
     \<Rightarrow> error + Chunk list" where
  "processMerged recurse cs [] currentOffset = Inr []"
| "processMerged recurse cs ((split, count) # rest) currentOffset =
     (if count > cs then
        (case recurse split currentOffset of
           Inl e \<Rightarrow> Inl e
         | Inr sub \<Rightarrow>
             (case processMerged recurse cs rest (currentOffset + length split) of
                Inl e \<Rightarrow> Inl e
              | Inr others \<Rightarrow> Inr (sub @ others)))
      else
        (case processMerged recurse cs rest (currentOffset + length split) of
           Inl e \<Rightarrow> Inl e
         | Inr others \<Rightarrow> Inr (makeChunk split count currentOffset # others)))"

lemma processMerged_cong [fundef_cong]:
  assumes "\<And>s off. recurse s off = recurse' s off" and "cs = cs'" and "ms = ms'" and "off0 = off0'"
  shows "processMerged recurse cs ms off0 = processMerged recurse' cs' ms' off0'"
proof -
  have "recurse = recurse'"
    using assms(1) by (intro ext)
  then show ?thesis
    using assms by simp
qed

function recursiveChunk ::
  "Wasm \<Rightarrow> 'a RecursiveChunker_scheme \<Rightarrow> jsstring \<Rightarrow> nat \<Rightarrow> nat \<Rightarrow> error + Chunk list" where
  "recursiveChunk w c txt level startOffset =
     (if txt = [] then Inr []
      else if level \<ge> length (rules c)
        then Inr [makeChunk txt (estimateTokenCount c txt) startOffset]
      else case getLevel (rules c) level of
        None \<Rightarrow> Inl (Error ''No rule found at level'')
      | Some currRule \<Rightarrow>
          (case mergeLevel w c currRule (splitTextR w c txt currRule)
                  (map (estimateTokenCount c) (splitTextR w c txt currRule)) of
             Inl e \<Rightarrow> Inl e
           | Inr (merged, combinedTokenCounts) \<Rightarrow>
               processMerged (\<lambda>split off. recursiveChunk w c split (level + 1) off)
                 (chunkSize c) (zip merged combinedTokenCounts) startOffset))"
  by pat_completeness auto

text \<open>Every recursive call is at the next level, and the levels end at the depth of the rules.\<close>

lemma recursiveChunk_terminates: "All recursiveChunk_dom"
  by (relation "measure (\<lambda>(w, c, txt, level, startOffset). length (rules c) - level)") auto

termination recursiveChunk
  by (rule recursiveChunk_terminates)

declare recursiveChunk.simps [simp del]

definition RecursiveChunker_chunk :: "Wasm \<Rightarrow> 'a RecursiveChunker_scheme \<Rightarrow> jsstring \<Rightarrow> error + Chunk list" where
  "RecursiveChunker_chunk w c txt = recursiveChunk w c txt 0 0"

section \<open>Concrete configurations\<close>

text \<open>
  The window-selection example of the specification: four sentences of 3, 4, 5 and 2
  tokens under the character tokenizer, a budget of 7 tokens, no overlap.
\<close>

definition windowExample :: SentenceChunker where
  "windowExample =
     \<lparr>tokenizer = characterTokenizer, chunkSize = 7, chunkOverlap = 0,
      minSentencesPerChunk = 1, minCharactersPerSentence = 1, approximate = False,
      delim = [str ''.''], includeDelim = Prev, sep = [0x2704]\<rparr>"

text \<open>
  Recursive chunkers whose rules never reach the WebAssembly primitives: one with the
  token-window level alone, one with no level at all and a budget of one token.
\<close>

definition unusedWasm :: Wasm where
  "unusedWasm = \<lparr>split_offsets = (\<lambda>t d i m. []), merge_splits = (\<lambda>t c w. [])\<rparr>"

definition tokenLevel :: RecursiveLevel where
  "tokenLevel = \<lparr>whitespace = False, delimiters = None, levelIncludeDelim = Prev\<rparr>"

definition tokenOnly :: RecursiveChunker where
  "tokenOnly =
     \<lparr>tokenizer = characterTokenizer, chunkSize = 512, rules = [tokenLevel],
      minCharactersPerChunk = 24\<rparr>"

definition noLevels :: RecursiveChunker where
  "noLevels =
     \<lparr>tokenizer = characterTokenizer, chunkSize = 1, rules = [],
      minCharactersPerChunk = 24\<rparr>"

text \<open>
  A sentence chunker that asks for two sentences per chunk, run on three sentences.
\<close>

definition minExample :: SentenceChunker where
  "minExample =
     \<lparr>tokenizer = characterTokenizer, chunkSize = 7, chunkOverlap = 0,
      minSentencesPerChunk = 2, minCharactersPerSentence = 1, approximate = False,
      delim = [str ''.''], includeDelim = Prev, sep = [0x2704]\<rparr>"

text \<open>
  A sentence chunker with an overlap of three tokens under a budget of five.
\<close>

definition overlapExample :: SentenceChunker where
  "overlapExample =
     \<lparr>tokenizer = characterTokenizer, chunkSize = 5, chunkOverlap = 3,
      minSentencesPerChunk = 1, minCharactersPerSentence = 1, approximate = False,
      delim = [str ''.''], includeDelim = Prev, sep = [0x2704]\<rparr>"

text \<open>
  A tokenizer with one vocabulary entry for a whole word, as a merged token of a
  byte-pair vocabulary: the word is token 0, any other code unit \<open>x\<close> is token
  \<open>x + 1\<close>.
\<close>

definition wordTokenizer :: "jsstring \<Rightarrow> Tokenizer" where
  "wordTokenizer wd =
     \<lparr>countTokens = (\<lambda>t. length (js_join (map (map (\<lambda>x. Suc (unat x))) (js_split t wd)) [0])),
      encode = (\<lambda>t. js_join (map (map (\<lambda>x. Suc (unat x))) (js_split t wd)) [0]),
      decodeBatch = map (\<lambda>ids. concat (map (\<lambda>k. if k = 0 then wd else [of_nat (k - 1)]) ids))\<rparr>"

text \<open>
  A recursive chunker with the token-window level, a budget of one token and a
  tokenizer whose single token for \<open>international\<close> is 13 code units long.
\<close>

definition longToken :: RecursiveChunker where
  "longToken =
     \<lparr>tokenizer = wordTokenizer (str ''international''), chunkSize = 1, rules = [tokenLevel],
      minCharactersPerChunk = 24\<rparr>"

text \<open>
  The token-window level alone under the character tokenizer, with a budget of five
  tokens.
\<close>

definition tokenFive :: RecursiveChunker where
  "tokenFive =
     \<lparr>tokenizer = characterTokenizer, chunkSize = 5, rules = [tokenLevel],
      minCharactersPerChunk = 24\<rparr>"

text \<open>
  A character-level tokenizer whose decoder strips the leading spaces of every decoded
  sequence, as the decoders of SentencePiece vocabularies do.
\<close>

definition strippingTokenizer :: Tokenizer where
  "strippingTokenizer =
     \<lparr>countTokens = length, encode = map unat,
      decodeBatch = map (\<lambda>ids. dropWhile (\<lambda>x. x = 0x20) (map of_nat ids))\<rparr>"

text \<open>
  The token-window level alone with that tokenizer and a budget of one token.
\<close>

definition strippedSpace :: RecursiveChunker where
  "strippedSpace =
     \<lparr>tokenizer = strippingTokenizer, chunkSize = 1, rules = [tokenLevel],
      minCharactersPerChunk = 24\<rparr>"

text \<open>A whitespace level.\<close>

definition whitespaceLevel :: RecursiveLevel where
  "whitespaceLevel = \<lparr>whitespace = True, delimiters = None, levelIncludeDelim = Prev\<rparr>"

text \<open>
  Modelled from the spec: an instance of the split primitive of the external package, for
  the examples. It gives the half-open ranges between the delimiter units, a delimiter
  going to the piece before it, to the piece after it or to none by the inclusion policy;
  this instance does not merge pieces up to a minimum number of characters.
\<close>

fun segmentsFrom :: "SplitInclude \<Rightarrow> jsstring \<Rightarrow> jsstring \<Rightarrow> nat \<Rightarrow> nat \<Rightarrow> (nat \<times> nat) list" where
  "segmentsFrom inc ds [] start pos = (if start < pos then [(start, pos)] else [])"
| "segmentsFrom inc ds (x # xs) start pos =
     (if x \<in> set ds then
        (case inc of
           SplitPrev \<Rightarrow> (start, Suc pos) # segmentsFrom inc ds xs (Suc pos) (Suc pos)
         | SplitNext \<Rightarrow>
             (if start < pos then [(start, pos)] else []) @ segmentsFrom inc ds xs pos (Suc pos)
         | SplitNone \<Rightarrow>
             (if start < pos then [(start, pos)] else []) @ segmentsFrom inc ds xs (Suc pos) (Suc pos))
      else segmentsFrom inc ds xs start (Suc pos))"

text \<open>
  Modelled from the spec: an instance of the merge primitive of the external package, for
  the examples. It joins consecutive pieces greedily while the sum of their counts, with
  one more token per join when whitespace is combined, stays within the budget, and gives
  the end index and the count of every group.
\<close>

fun mergeFrom :: "int \<Rightarrow> bool \<Rightarrow> int list \<Rightarrow> nat \<Rightarrow> int \<Rightarrow> bool \<Rightarrow> (nat \<times> int) list" where
  "mergeFrom cs cw [] idx cur started = (if started then [(idx, cur)] else [])"
| "mergeFrom cs cw (k # ks) idx cur started =
     (if started \<and> cur + k + (if cw then 1 else 0) > cs
      then (idx, cur) # mergeFrom cs cw ks (Suc idx) k True
      else mergeFrom cs cw ks (Suc idx) (cur + k + (if started \<and> cw then 1 else 0)) True)"

text \<open>The two instances together.\<close>

definition greedyWasm :: Wasm where
  "greedyWasm =
     \<lparr>split_offsets = (\<lambda>t ds inc m. segmentsFrom inc ds t 0 0),
      merge_splits = (\<lambda>counts cs cw. mergeFrom cs cw counts 0 0 False)\<rparr>"

text \<open>
  A recursive chunker with a whitespace level above the token-window level, under the
  character tokenizer and a budget of three tokens.
\<close>

definition wordsThenTokens :: RecursiveChunker where
  "wordsThenTokens =
     \<lparr>tokenizer = characterTokenizer, chunkSize = 3, rules = [whitespaceLevel, tokenLevel],
      minCharactersPerChunk = 24\<rparr>"

section \<open>Loop invariants and layout predicates\<close>

text \<open>
  The invariant of the chunking loop for the minimum number of sentences: every chunk but
  the last has the minimum; the last has it too, or the loop is over, the warning is
  logged and the chunk holds the sentences that remained.
\<close>

definition minInv :: "'a SentenceChunker_scheme \<Rightarrow> Sentence list \<Rightarrow> nat \<times> SentenceChunk list \<times> warning list \<Rightarrow> bool" where
  "minInv c sents st =
     (case st of (pos, chs, ws) \<Rightarrow>
        (\<forall>i. Suc i < length chs \<longrightarrow> minSentencesPerChunk c \<le> int (length (sentences (chs ! i)))) \<and>
        (if chs = [] then ws = []
         else (minSentencesPerChunk c \<le> int (length (sentences (last chs))) \<and> ws = []) \<or>
              (length sents \<le> pos \<and>
               ws = [MinSentencesNotMet (minSentencesPerChunk c) (length (sentences (last chs)))] \<and>
               (\<exists>k < length sents. sentences (last chs) = drop k sents))))"

text \<open>
  The invariant of the chunking loop for the budget: every chunk holds sentences of the
  text, its text is their concatenation counted again, and a chunk longer than the
  minimum (and than one sentence) has a sum of sentence counts below the budget.
\<close>

definition budgetInv ::
  "'a SentenceChunker_scheme \<Rightarrow> Sentence list \<Rightarrow> nat \<times> SentenceChunk list \<times> warning list \<Rightarrow> bool" where
  "budgetInv c sents st =
     (case st of (pos, chs, ws) \<Rightarrow>
        (\<forall>ch \<in> set chs.
           sentences ch \<noteq> [] \<and> set (sentences ch) \<subseteq> set sents \<and>
           text ch = concat (map text (sentences ch)) \<and>
           tokenCount ch = int (countTokens (tokenizer c) (text ch)) \<and>
           (int (length (sentences ch)) \<le> max 1 (minSentencesPerChunk c) \<or>
            sum_list (map tokenCount (sentences ch)) < chunkSize c)))"

text \<open>
  The invariant of the chunking loop without overlap: the chunks so far, joined, are the
  sentences before the cursor, joined.
\<close>

definition concatInv :: "Sentence list \<Rightarrow> nat \<times> SentenceChunk list \<times> warning list \<Rightarrow> bool" where
  "concatInv sents st =
     (case st of (pos, chs, ws) \<Rightarrow>
        pos \<le> length sents \<and> concat (map text chs) = concat (map text (take pos sents)))"

text \<open>
  The invariant of the chunking loop for the offsets: every chunk is non-empty and starts
  where a sentence before the cursor starts, and the starts increase strictly.
\<close>

definition orderInv :: "Sentence list \<Rightarrow> nat \<times> SentenceChunk list \<times> warning list \<Rightarrow> bool" where
  "orderInv sents st =
     (case st of (pos, chs, ws) \<Rightarrow>
        (\<forall>ch \<in> set chs. startIndex ch < endIndex ch \<and>
           (\<exists>p < pos. p < length sents \<and> startIndex ch = startIndex (sents ! p))) \<and>
        sorted_wrt (\<lambda>a b. startIndex a < startIndex b) chs)"

text \<open>
  The splits of a run of the recursive chunker: every text that \<open>recursiveChunk\<close>
  splits on the way, from \<open>txt\<close> at \<open>level\<close> down, with the merged pieces
  it is split into. The recursion is that of \<open>recursiveChunk\<close>: into every merged
  piece whose token count exceeds the budget, at the next level.
\<close>

function runSplits ::
  "Wasm \<Rightarrow> 'a RecursiveChunker_scheme \<Rightarrow> jsstring \<Rightarrow> nat \<Rightarrow> (jsstring \<times> jsstring list) list" where
  "runSplits w c txt level =
     (if txt = [] then []
      else if level \<ge> length (rules c) then []
      else case getLevel (rules c) level of
        None \<Rightarrow> []
      | Some currRule \<Rightarrow>
          (case mergeLevel w c currRule (splitTextR w c txt currRule)
                  (map (estimateTokenCount c) (splitTextR w c txt currRule)) of
             Inl e \<Rightarrow> []
           | Inr (merged, combinedTokenCounts) \<Rightarrow>
               (txt, merged) #
               concat (map (\<lambda>(split, tokenCount).
                              if tokenCount > chunkSize c then runSplits w c split (level + 1)
                              else [])
                           (zip merged combinedTokenCounts))))"
  by pat_completeness auto

lemma runSplits_terminates: "All runSplits_dom"
  by (relation "measure (\<lambda>(w, c, txt, level). length (rules c) - level)") auto

termination runSplits
  by (rule runSplits_terminates)

declare runSplits.simps [simp del]

text \<open>
  A split fits when its merged pieces are non-empty and together no longer than the text
  they come from.
\<close>

definition pieceFits :: "jsstring \<times> jsstring list \<Rightarrow> bool" where
  "pieceFits p = (case p of (t, merged) \<Rightarrow> [] \<notin> set merged \<and> length (concat merged) \<le> length t)"

text \<open>
  The condition under which the offsets of the recursive chunker are well-formed: every
  split of the run on \<open>txt\<close> fits.
\<close>

definition piecesFit :: "Wasm \<Rightarrow> 'a RecursiveChunker_scheme \<Rightarrow> jsstring \<Rightarrow> bool" where
  "piecesFit w c txt = list_all pieceFits (runSplits w c txt 0)"

text \<open>
  Chunks laid out in order inside the span from \<open>lo\<close> to \<open>hi\<close>: each is
  non-empty, and each ends no later than the next one starts.
\<close>

definition inSpan :: "nat \<Rightarrow> nat \<Rightarrow> Chunk list \<Rightarrow> bool" where
  "inSpan lo hi r =
     (sorted_wrt (\<lambda>a b. endIndex a \<le> startIndex b) r \<and>
      (\<forall>ch \<in> set r. lo \<le> startIndex ch \<and> startIndex ch < endIndex ch \<and> endIndex ch \<le> hi))"

section \<open>Window selection on the example (C2)\<close>

lemma windowExample_sentences:
  "map tokenCount (prepareSentences windowExample (str ''ab.abc.abcd.a.'')) = [3, 4, 5, 2]"
  by code_simp

text \<open>
  C2, as the code behaves: on sentences of 3, 4, 5 and 2 tokens with a budget of 7, one
  minimum sentence and no overlap, \<open>chunk\<close> returns four chunks of one sentence each.
  The bisection takes the sentences whose running sum stays strictly below the budget, so
  the sentence that brings the sum to exactly 7 starts the next chunk.
\<close>

theorem C2_window_selection:
  "(case chunk windowExample (str ''ab.abc.abcd.a.'') of
      Inl e \<Rightarrow> []
    | Inr (chs, w) \<Rightarrow> map (\<lambda>c. (map tokenCount (sentences c), tokenCount c)) chs)
   = [([3], 3), ([4], 4), ([5], 5), ([2], 2)]"
  by code_simp

text \<open>The three chunks that the specification expects are not what the code returns.\<close>

theorem C2_counterexample:
  "(case chunk windowExample (str ''ab.abc.abcd.a.'') of
      Inl e \<Rightarrow> []
    | Inr (chs, w) \<Rightarrow> map (\<lambda>c. map tokenCount (sentences c)) chs)
   \<noteq> [[3, 4], [5], [2]]"
  by code_simp

section \<open>Empty and blank input (C7)\<close>

text \<open>
  C7, as the code behaves: the sentence chunker returns no chunk for the empty string and
  for a string of three spaces; the recursive chunker returns no chunk for the empty
  string, and for three spaces it returns a chunk holding them (here with the token-window
  level as the only rule): only the empty text is cut off there.
\<close>

theorem C7_empty_input:
  "chunk c [] = Inr ([], []) \<and>
   chunk c (str ''   '') = Inr ([], []) \<and>
   RecursiveChunker_chunk w rc [] = Inr [] \<and>
   RecursiveChunker_chunk unusedWasm tokenOnly (str ''   '')
     = Inr [\<lparr>text = str ''   '', startIndex = 0, endIndex = 3, tokenCount = 3\<rparr>]"
proof -
  have "chunk c [] = Inr ([], [])"
    by (simp add: chunk_def js_trim_def)
  moreover have "chunk c (str ''   '') = Inr ([], [])"
    by (simp add: chunk_def js_trim_def str_def isWhiteSpace_def)
  moreover have "RecursiveChunker_chunk w rc [] = Inr []"
    by (simp add: RecursiveChunker_chunk_def recursiveChunk.simps)
  moreover have "RecursiveChunker_chunk unusedWasm tokenOnly (str ''   '')
     = Inr [\<lparr>text = str ''   '', startIndex = 0, endIndex = 3, tokenCount = 3\<rparr>]"
    by code_simp
  ultimately show ?thesis
    by blast
qed

theorem C7_counterexample:
  "RecursiveChunker_chunk unusedWasm tokenOnly (str ''   '') \<noteq> Inr []"
  by code_simp

section \<open>Validation at construction (C8)\<close>

text \<open>
  C8, as the code behaves: the constructor of the sentence chunker throws exactly when
  \<open>chunkSize \<le> 0\<close>, \<open>chunkOverlap < 0\<close>, \<open>chunkOverlap \<ge> chunkSize\<close>,
  \<open>minSentencesPerChunk \<le> 0\<close>, \<open>minCharactersPerSentence \<le> 0\<close>, the delimiter
  set is \<open>null\<close> or the inclusion policy is none of prev, next and null; the
  constructor of the recursive chunker throws exactly when \<open>chunkSize \<le> 0\<close> or
  \<open>minCharactersPerChunk \<le> 0\<close>; \<open>mergeSplits\<close> throws exactly when both lists
  are non-empty and differ in length. A chunker that is built holds the values given.
\<close>

theorem C8_validation:
  "(isl (SentenceChunker_new tk cs co msc mcs approx dl inc) \<longleftrightarrow>
      (cs \<le> 0 \<or> co < 0 \<or> cs \<le> co \<or> msc \<le> 0 \<or> mcs \<le> 0 \<or> dl = None \<or>
       (inc \<noteq> Prev \<and> inc \<noteq> Next \<and> inc \<noteq> Null))) \<and>
   (SentenceChunker_new tk cs co msc mcs approx dl inc = Inr (sc, ws) \<longleftrightarrow>
      (isl (SentenceChunker_new tk cs co msc mcs approx dl inc) = False \<and>
       sc = \<lparr>tokenizer = tk, chunkSize = cs, chunkOverlap = co, minSentencesPerChunk = msc,
              minCharactersPerSentence = mcs, approximate = approx, delim = the dl,
              includeDelim = inc, sep = [0x2704]\<rparr> \<and>
       ws = (if approx then [ApproximateDeprecated] else []))) \<and>
   (isl (RecursiveChunker_new tk cs rs mcc) \<longleftrightarrow> (cs \<le> 0 \<or> mcc \<le> 0)) \<and>
   (isl (mergeSplits w c splits tcs cw) \<longleftrightarrow>
      (splits \<noteq> [] \<and> tcs \<noteq> [] \<and> length splits \<noteq> length tcs))"
proof -
  have "isl (SentenceChunker_new tk cs co msc mcs approx dl inc) \<longleftrightarrow>
      (cs \<le> 0 \<or> co < 0 \<or> cs \<le> co \<or> msc \<le> 0 \<or> mcs \<le> 0 \<or> dl = None \<or>
       (inc \<noteq> Prev \<and> inc \<noteq> Next \<and> inc \<noteq> Null))"
    by (auto simp: SentenceChunker_new_def split: option.splits)
  moreover have "SentenceChunker_new tk cs co msc mcs approx dl inc = Inr (sc, ws) \<longleftrightarrow>
      (isl (SentenceChunker_new tk cs co msc mcs approx dl inc) = False \<and>
       sc = \<lparr>tokenizer = tk, chunkSize = cs, chunkOverlap = co, minSentencesPerChunk = msc,
              minCharactersPerSentence = mcs, approximate = approx, delim = the dl,
              includeDelim = inc, sep = [0x2704]\<rparr> \<and>
       ws = (if approx then [ApproximateDeprecated] else []))"
    by (auto simp: SentenceChunker_new_def split: option.splits)
  moreover have "isl (RecursiveChunker_new tk cs rs mcc) \<longleftrightarrow> (cs \<le> 0 \<or> mcc \<le> 0)"
    by (auto simp: RecursiveChunker_new_def)
  moreover have "isl (mergeSplits w c splits tcs cw) \<longleftrightarrow>
      (splits \<noteq> [] \<and> tcs \<noteq> [] \<and> length splits \<noteq> length tcs)"
    by (auto simp: mergeSplits_def)
  ultimately show ?thesis
    by blast
qed

text \<open>
  An empty delimiter list is accepted, and \<open>mergeSplits\<close> returns the empty result for
  no splits against one token count.
\<close>

theorem C8_counterexample:
  "SentenceChunker_new characterTokenizer 512 0 1 12 False (Some []) Prev
     = Inr (\<lparr>tokenizer = characterTokenizer, chunkSize = 512, chunkOverlap = 0,
              minSentencesPerChunk = 1, minCharactersPerSentence = 12, approximate = False,
              delim = [], includeDelim = Prev, sep = [0x2704]\<rparr>, []) \<and>
   mergeSplits unusedWasm tokenOnly [] [1] False = Inr ([], [])"
  by (simp add: SentenceChunker_new_def mergeSplits_def)

section \<open>The token estimate (C10)\<close>

lemma floor_chars_per_token: "\<lfloor>real n / 6.5\<rfloor> = (2 * int n) div 13"
proof -
  have "real n / 6.5 = real_of_int (2 * int n) / real_of_int 13"
    by simp
  then show ?thesis
    by (simp only: floor_divide_of_int_eq)
qed

text \<open>
  C10: \<open>estimateTokenCount\<close> is \<open>chunkSize + 1\<close> when
  \<open>max(1, floor(length / 6.5))\<close> exceeds \<open>chunkSize\<close>, whatever the
  tokenizer, and the exact count of the tokenizer otherwise; a non-empty text that reaches
  the base level is returned as one chunk whose \<open>tokenCount\<close> is that estimate,
  so \<open>chunkSize + 1\<close> when the heuristic exceeds the budget, which under the
  character tokenizer is less than the count of the tokenizer.
\<close>

theorem C10_estimate:
  "estimateTokenCount c txt =
     (if max 1 \<lfloor>real (length txt) / 6.5\<rfloor> > chunkSize c then chunkSize c + 1
      else int (countTokens (tokenizer c) txt)) \<and>
   (max 1 \<lfloor>real (length txt) / 6.5\<rfloor> > chunkSize c \<longrightarrow>
      (\<forall>tk. estimateTokenCount (c\<lparr>tokenizer := tk\<rparr>) txt = chunkSize c + 1)) \<and>
   (txt \<noteq> [] \<and> length (rules rc) \<le> level \<longrightarrow>
      recursiveChunk w rc txt level off =
        Inr [\<lparr>text = txt, startIndex = off, endIndex = off + length txt,
              tokenCount = (if max 1 \<lfloor>real (length txt) / 6.5\<rfloor> > chunkSize rc
                            then chunkSize rc + 1
                            else int (countTokens (tokenizer rc) txt))\<rparr>]) \<and>
   (tokenizer rc = characterTokenizer \<and> 0 < chunkSize rc
      \<and> max 1 \<lfloor>real (length txt) / 6.5\<rfloor> > chunkSize rc \<longrightarrow>
      chunkSize rc + 1 < int (countTokens (tokenizer rc) txt))"
  unfolding floor_chars_per_token
  by (auto simp: estimateTokenCount_def recursiveChunk.simps makeChunk_def characterTokenizer_def)

text \<open>
  With no level and a budget of one token, the 13 code units of \<open>international\<close> are
  returned as one chunk that reports 2 tokens; the tokenizer counts 13, and the estimate
  is 2 with another tokenizer as well.
\<close>

theorem C10_estimate_witness:
  "recursiveChunk unusedWasm noLevels (str ''international'') 0 0
     = Inr [\<lparr>text = str ''international'', startIndex = 0, endIndex = 13, tokenCount = 2\<rparr>] \<and>
   countTokens (tokenizer noLevels) (str ''international'') = 13 \<and>
   estimateTokenCount (noLevels\<lparr>tokenizer := wordTokenizer (str ''international'')\<rparr>)
     (str ''international'') = 2"
  using C10_estimate[of noLevels "str ''international''" noLevels 0 unusedWasm 0]
  by (simp add: noLevels_def str_def characterTokenizer_def)

section \<open>The chunking loop of the sentence chunker\<close>

lemma js_slice_nat:
  "a \<le> b \<Longrightarrow> b \<le> length xs \<Longrightarrow> js_slice xs (int a) (int b) = take (b - a) (drop a xs)"
  by (simp add: js_slice_def Let_def min_def nat_diff_distrib')

lemma js_join_Nil: "js_join xs [] = concat xs"
  by (induction xs "[] :: 'a list" rule: js_join.induct) auto

lemma bisectLeft_prev:
  "bisectLeft arr v lo hi = lo \<or> arr ! (bisectLeft arr v lo hi - 1) < v"
proof (induction arr v lo hi rule: bisectLeft.induct)
  case (1 arr v lo hi)
  show ?case
  proof (cases "lo < hi")
    case False
    then show ?thesis by (subst bisectLeft.simps) (simp add: bisectLeft.simps)
  next
    case True
    show ?thesis
    proof (cases "arr ! ((lo + hi) div 2) < v")
      case lt: True
      from "1.IH"(1)[OF True lt] True lt show ?thesis
        by (subst (1 2) bisectLeft.simps) auto
    next
      case ge: False
      from "1.IH"(2)[OF True ge] True ge show ?thesis
        by (subst (1 2) bisectLeft.simps) auto
    qed
  qed
qed

lemma bisectLeft_bounds: "lo \<le> hi \<Longrightarrow> lo \<le> bisectLeft arr v lo hi \<and> bisectLeft arr v lo hi \<le> hi"
proof (induction arr v lo hi rule: bisectLeft.induct)
  case (1 arr v lo hi)
  show ?case
  proof (cases "lo < hi")
    case False
    with 1(3) show ?thesis by (simp add: bisectLeft.simps)
  next
    case True
    show ?thesis
    proof (cases "arr ! ((lo + hi) div 2) < v")
      case lt: True
      have "(lo + hi) div 2 + 1 \<le> hi" using True by linarith
      from "1.IH"(1)[OF True lt this] True lt show ?thesis
        by (subst (1 2) bisectLeft.simps) auto
    next
      case ge: False
      have "lo \<le> (lo + hi) div 2" using True by linarith
      from "1.IH"(2)[OF True ge this] True ge show ?thesis
        by (subst (1 2) bisectLeft.simps) auto
    qed
  qed
qed

lemma overlapWalk_le: "overlapWalk c sents pos i t \<le> i"
proof (induction c sents pos i t rule: overlapWalk.induct)
  case (1 c sents pos overlapIdx overlapTokens)
  then show ?case
    by (subst overlapWalk.simps) auto
qed

lemma chooseSplit_le: "pos < length sents \<Longrightarrow> fst (chooseSplit c sents tokenSums pos) \<le> int (length sents)"
  by (auto simp: chooseSplit_def Let_def)

lemma nextPos_le: "int pos < splitIdx \<Longrightarrow> nextPos c sents pos splitIdx \<le> nat splitIdx"
  using overlapWalk_le[of c sents pos "splitIdx - 1" 0] by (auto simp: nextPos_def)

lemma createChunk_Inr:
  "sl \<noteq> [] \<Longrightarrow> createChunk c sl =
     Inr \<lparr>text = concat (map text sl), startIndex = startIndex (hd sl), endIndex = endIndex (last sl),
          tokenCount = int (countTokens (tokenizer c) (concat (map text sl))), sentences = sl\<rparr>"
  by (cases sl) (simp_all add: createChunk_def js_join_Nil Let_def)

lemma chunkStep_cases:
  assumes "fst st < length sents"
  obtains pos chs ws si w sl where
    "st = (pos, chs, ws)" "chooseSplit c sents ts pos = (si, w)"
    "pos < nat si" "nat si \<le> length sents" "0 \<le> si"
    "sl = take (nat si - pos) (drop pos sents)" "sl \<noteq> []"
    "chunkStep c sents ts st =
       Inr (nextPos c sents pos si,
            chs @ [\<lparr>text = concat (map text sl), startIndex = startIndex (hd sl),
                     endIndex = endIndex (last sl),
                     tokenCount = int (countTokens (tokenizer c) (concat (map text sl))),
                     sentences = sl\<rparr>],
            ws @ w)"
    "pos < nextPos c sents pos si" "nextPos c sents pos si \<le> nat si"
proof -
  obtain pos chs ws where st: "st = (pos, chs, ws)"
    by (cases st) auto
  obtain si w where cs: "chooseSplit c sents ts pos = (si, w)"
    by (cases "chooseSplit c sents ts pos") auto
  have pos: "pos < length sents"
    using assms st by simp
  have lo: "int pos < si"
    using chooseSplit_gt[OF pos, of c ts] cs by simp
  have hi: "si \<le> int (length sents)"
    using chooseSplit_le[OF pos, of c ts] cs by simp
  define sl where "sl = take (nat si - pos) (drop pos sents)"
  have slice: "js_slice sents (int pos) si = sl"
    using js_slice_nat[of pos "nat si" sents] lo hi by (simp add: sl_def)
  have ne: "sl \<noteq> []"
    using lo hi pos by (simp add: sl_def)
  have step: "chunkStep c sents ts st =
       Inr (nextPos c sents pos si,
            chs @ [\<lparr>text = concat (map text sl), startIndex = startIndex (hd sl),
                     endIndex = endIndex (last sl),
                     tokenCount = int (countTokens (tokenizer c) (concat (map text sl))),
                     sentences = sl\<rparr>],
            ws @ w)"
    by (simp add: chunkStep_def st cs slice createChunk_Inr[OF ne])
  show thesis
    using that[OF st cs _ _ _ sl_def ne step nextPos_gt[OF lo] nextPos_le[OF lo]] lo hi
    by simp
qed

lemma chunkLoop_rule:
  assumes init: "I st"
    and step: "\<And>st st'. I st \<Longrightarrow> fst st < length sents
                 \<Longrightarrow> chunkStep c sents ts st = Inr st' \<Longrightarrow> I st'"
  shows "\<exists>pos chs ws. chunkLoop c sents ts st = Inr (chs, ws) \<and> length sents \<le> pos
           \<and> I (pos, chs, ws)"
  using init
proof (induction "length sents - fst st" arbitrary: st rule: less_induct)
  case less
  show ?case
  proof (cases "fst st < length sents")
    case False
    then have "chunkLoop c sents ts st = Inr (snd st)"
      by (simp add: chunkLoop.simps)
    moreover have "I (fst st, fst (snd st), snd (snd st))"
      using less.prems by simp
    ultimately show ?thesis
      using False by (metis leI prod.collapse)
  next
    case True
    obtain st' where st': "chunkStep c sents ts st = Inr st'" and lt: "fst st < fst st'"
      using chunkStep_cases[OF True, of c ts] by (metis fst_conv)
    have "I st'"
      using step[OF less.prems True st'] .
    moreover have "length sents - fst st' < length sents - fst st"
      using lt True by linarith
    ultimately obtain pos chs ws where
      "chunkLoop c sents ts st' = Inr (chs, ws)" "length sents \<le> pos" "I (pos, chs, ws)"
      using less.hyps by blast
    moreover have "chunkLoop c sents ts st = chunkLoop c sents ts st'"
      using True st' by (subst chunkLoop.simps) simp
    ultimately show ?thesis
      by auto
  qed
qed

lemma chooseSplit_min:
  assumes "pos < length sents" and "chooseSplit c sents ts pos = (si, w)"
  shows "(minSentencesPerChunk c \<le> si - int pos \<and> w = []) \<or>
         (si = int (length sents) \<and> int (length sents) - int pos < minSentencesPerChunk c \<and>
          w = [MinSentencesNotMet (minSentencesPerChunk c) (length sents - pos)])"
  using assms by (auto simp: chooseSplit_def Let_def split: if_splits)

lemma nextPos_end: "splitIdx = int (length sents) \<Longrightarrow> nextPos c sents pos splitIdx = length sents"
  by (simp add: nextPos_def)

lemma minInv_step:
  assumes inv: "minInv c sents st" and lt: "fst st < length sents"
    and step: "chunkStep c sents ts st = Inr st'"
  shows "minInv c sents st'"
proof -
  obtain pos chs ws si w sl where
    st: "st = (pos, chs, ws)" and cs: "chooseSplit c sents ts pos = (si, w)"
    and lo: "pos < nat si" and hi: "nat si \<le> length sents" and nn: "0 \<le> si"
    and sl: "sl = take (nat si - pos) (drop pos sents)" and ne: "sl \<noteq> []"
    and res: "chunkStep c sents ts st =
       Inr (nextPos c sents pos si,
            chs @ [\<lparr>text = concat (map text sl), startIndex = startIndex (hd sl),
                     endIndex = endIndex (last sl),
                     tokenCount = int (countTokens (tokenizer c) (concat (map text sl))),
                     sentences = sl\<rparr>],
            ws @ w)"
    using chunkStep_cases[OF lt, of c ts] by metis
  define ch where "ch = \<lparr>text = concat (map text sl), startIndex = startIndex (hd sl),
                     endIndex = endIndex (last sl),
                     tokenCount = int (countTokens (tokenizer c) (concat (map text sl))),
                     sentences = sl\<rparr>"
  have st': "st' = (nextPos c sents pos si, chs @ [ch], ws @ w)"
    using step res by (simp add: ch_def)
  have pos: "pos < length sents"
    using lt st by simp
  have len: "length sl = nat si - pos"
    using hi by (simp add: sl)
  have old: "\<forall>i. Suc i < length chs \<longrightarrow> minSentencesPerChunk c \<le> int (length (sentences (chs ! i)))"
    using inv st by (simp add: minInv_def)
  have lastok: "chs \<noteq> [] \<Longrightarrow> minSentencesPerChunk c \<le> int (length (sentences (last chs)))"
    using inv st pos by (auto simp: minInv_def split: if_splits)
  have ws: "ws = []"
    using inv st pos by (auto simp: minInv_def split: if_splits)
  have all: "\<forall>i. Suc i < length (chs @ [ch]) \<longrightarrow>
               minSentencesPerChunk c \<le> int (length (sentences ((chs @ [ch]) ! i)))"
  proof (intro allI impI)
    fix i assume "Suc i < length (chs @ [ch])"
    then have i: "i < length chs" by simp
    show "minSentencesPerChunk c \<le> int (length (sentences ((chs @ [ch]) ! i)))"
    proof (cases "Suc i < length chs")
      case True
      then show ?thesis using old i by (simp add: nth_append)
    next
      case False
      then have "i = length chs - 1" and "chs \<noteq> []" using i by auto
      then have "(chs @ [ch]) ! i = last chs"
        using i by (simp add: nth_append last_conv_nth)
      then show ?thesis using lastok \<open>chs \<noteq> []\<close> by simp
    qed
  qed
  from chooseSplit_min[OF pos cs] show ?thesis
  proof
    assume a: "minSentencesPerChunk c \<le> si - int pos \<and> w = []"
    then have "minSentencesPerChunk c \<le> int (length (sentences ch))"
      using len lo by (simp add: ch_def)
    then show ?thesis
      using all a ws by (simp add: minInv_def st')
  next
    assume b: "si = int (length sents) \<and> int (length sents) - int pos < minSentencesPerChunk c \<and>
          w = [MinSentencesNotMet (minSentencesPerChunk c) (length sents - pos)]"
    then have np: "nextPos c sents pos si = length sents"
      by (simp add: nextPos_end)
    have sl2: "sl = drop pos sents"
      using b by (simp add: sl)
    have "length (sentences ch) = length sents - pos"
      using sl2 by (simp add: ch_def)
    then show ?thesis
      using all b ws np sl2 pos by (auto simp: minInv_def st' ch_def)
  qed
qed

lemma chunkLoop_min:
  "\<exists>pos chs ws. chunkLoop c sents ts (0, [], []) = Inr (chs, ws) \<and> length sents \<le> pos
           \<and> minInv c sents (pos, chs, ws)"
proof (rule chunkLoop_rule)
  show "minInv c sents (0, [], [])"
    by (simp add: minInv_def)
next
  fix st st'
  assume "minInv c sents st" "fst st < length sents" "chunkStep c sents ts st = Inr st'"
  then show "minInv c sents st'"
    by (rule minInv_step)
qed

section \<open>Minimum number of sentences (C5)\<close>

text \<open>
  C5: \<open>chunk\<close> returns its chunks without failing; every chunk but the last holds at
  least \<open>minSentencesPerChunk\<close> sentences; when the last chunk holds fewer, exactly one
  warning is logged and the chunk holds all the sentences that remained.
\<close>

theorem C5_min_sentences:
  "\<exists>chs ws. chunk c txt = Inr (chs, ws) \<and>
     (\<forall>i. Suc i < length chs \<longrightarrow> minSentencesPerChunk c \<le> int (length (sentences (chs ! i)))) \<and>
     (chs \<noteq> [] \<and> int (length (sentences (last chs))) < minSentencesPerChunk c \<longrightarrow>
        ws = [MinSentencesNotMet (minSentencesPerChunk c) (length (sentences (last chs)))] \<and>
        (\<exists>k < length (prepareSentences c txt).
            sentences (last chs) = drop k (prepareSentences c txt)))"
proof (cases "js_trim txt = [] \<or> prepareSentences c txt = []")
  case True
  then have "chunk c txt = Inr ([], [])"
    by (auto simp: chunk_def Let_def)
  then show ?thesis
    by simp
next
  case False
  define sents where "sents = prepareSentences c txt"
  from False have run: "chunk c txt = chunkLoop c sents (tokenSumsFrom 0 sents) (0, [], [])"
    by (simp add: chunk_def Let_def sents_def)
  obtain pos chs ws where
    res: "chunkLoop c sents (tokenSumsFrom 0 sents) (0, [], []) = Inr (chs, ws)"
    and inv: "minInv c sents (pos, chs, ws)"
    using chunkLoop_min[of c sents "tokenSumsFrom 0 sents"] by blast
  have "\<forall>i. Suc i < length chs \<longrightarrow> minSentencesPerChunk c \<le> int (length (sentences (chs ! i)))"
    using inv by (simp add: minInv_def)
  moreover have "chs \<noteq> [] \<and> int (length (sentences (last chs))) < minSentencesPerChunk c \<longrightarrow>
        ws = [MinSentencesNotMet (minSentencesPerChunk c) (length (sentences (last chs)))] \<and>
        (\<exists>k < length sents. sentences (last chs) = drop k sents)"
    using inv by (auto simp: minInv_def)
  ultimately show ?thesis
    using run res unfolding sents_def by auto
qed

text \<open>
  Three sentences with a minimum of two: the second chunk holds the one sentence that is
  left, and the warning is logged.
\<close>

theorem C5_min_sentences_witness:
  "(case chunk minExample (str ''ab.cd.ef.'') of
      Inl e \<Rightarrow> ([], [])
    | Inr (chs, ws) \<Rightarrow> (map (\<lambda>ch. length (sentences ch)) chs, ws))
   = ([2, 1], [MinSentencesNotMet 2 1])"
proof -
  have run: "(case chunk minExample (str ''ab.cd.ef.'') of
      Inl e \<Rightarrow> ([], [])
    | Inr (chs, ws) \<Rightarrow> (map (\<lambda>ch. length (sentences ch)) chs, ws))
   = ([2, 1], [MinSentencesNotMet 2 1])"
    by code_simp
  show ?thesis
    using C5_min_sentences[of minExample "str ''ab.cd.ef.''"] by (simp only: run)
qed

section \<open>Token sums, sentences and the budget\<close>

lemma length_tokenSumsFrom: "length (tokenSumsFrom a sents) = Suc (length sents)"
  by (induction sents arbitrary: a) auto

lemma tokenSumsFrom_nth:
  "i \<le> length sents \<Longrightarrow> tokenSumsFrom a sents ! i = a + sum_list (map tokenCount (take i sents))"
proof (induction sents arbitrary: a i)
  case Nil
  then show ?case by simp
next
  case (Cons s sents)
  then show ?case by (cases i) auto
qed

lemma tokenSums_slice:
  assumes "i \<le> j" and "j \<le> length sents"
  shows "sum_list (map tokenCount (take (j - i) (drop i sents)))
           = tokenSumsFrom a sents ! j - tokenSumsFrom a sents ! i"
proof -
  have "take j sents = take i sents @ take (j - i) (drop i sents)"
    using assms(1) by (metis le_add_diff_inverse take_add)
  then have "sum_list (map tokenCount (take j sents))
      = sum_list (map tokenCount (take i sents)) + sum_list (map tokenCount (take (j - i) (drop i sents)))"
    by simp
  then show ?thesis
    using assms by (simp add: tokenSumsFrom_nth)
qed

lemma chooseSplit_budget:
  assumes pos: "pos < length sents" and ts: "length ts = Suc (length sents)"
    and cs: "chooseSplit c sents ts pos = (si, w)"
  shows "si - int pos \<le> max 1 (minSentencesPerChunk c) \<or> ts ! nat si < ts ! pos + chunkSize c"
proof -
  define b where "b = bisectLeft ts (ts ! pos + chunkSize c) pos (length ts)"
  have bb: "pos \<le> b \<and> b \<le> length ts"
    unfolding b_def using bisectLeft_bounds[of pos "length ts"] pos ts by simp
  have prev: "b = pos \<or> ts ! (b - 1) < ts ! pos + chunkSize c"
    unfolding b_def by (rule bisectLeft_prev)
  show ?thesis
  proof (cases "si - int pos \<le> max 1 (minSentencesPerChunk c)")
    case True
    then show ?thesis by simp
  next
    case False
    then have "si = int b - 1"
      using cs bb ts unfolding chooseSplit_def Let_def b_def[symmetric]
      by (auto split: if_splits)
    moreover from this False have "b \<noteq> pos" by auto
    ultimately show ?thesis
      using prev bb by (simp add: nat_diff_distrib')
  qed
qed

lemma length_positionsFrom: "length (positionsFrom a xs) = length xs"
  by (induction xs arbitrary: a) auto

lemma positionsFrom_nth:
  "i < length xs \<Longrightarrow> positionsFrom a xs ! i = a + length (concat (take i xs))"
proof (induction xs arbitrary: a i)
  case Nil
  then show ?case by simp
next
  case (Cons x xs)
  then show ?case by (cases i) auto
qed

lemma length_prepareSentences: "length (prepareSentences c txt) = length (splitText c txt)"
  by (simp add: prepareSentences_def Let_def)

lemma prepareSentences_nth:
  assumes "i < length (splitText c txt)"
  shows "prepareSentences c txt ! i =
           \<lparr>text = splitText c txt ! i,
            startIndex = length (concat (take i (splitText c txt))),
            endIndex = length (concat (take i (splitText c txt))) + length (splitText c txt ! i),
            tokenCount = int (countTokens (tokenizer c) (splitText c txt ! i))\<rparr>"
proof -
  have "splitText c txt \<noteq> []"
    using assms by auto
  then show ?thesis
    using assms by (simp add: prepareSentences_def Let_def positionsFrom_nth countTokensBatch_def)
qed

lemma prepareSentences_count:
  assumes "s \<in> set (prepareSentences c txt)"
  shows "tokenCount s = int (countTokens (tokenizer c) (text s))"
proof -
  obtain i where "i < length (prepareSentences c txt)" and "prepareSentences c txt ! i = s"
    using assms by (auto simp: in_set_conv_nth)
  then show ?thesis
    using prepareSentences_nth[of i c "txt"] by (auto simp: length_prepareSentences)
qed

lemma count_concat_le:
  fixes f :: "'a list \<Rightarrow> nat"
  assumes sub: "\<And>a b. f (a @ b) \<le> f a + f b" and "xs \<noteq> []"
  shows "f (concat xs) \<le> sum_list (map f xs)"
  using assms(2)
proof (induction xs rule: list_nonempty_induct)
  case (single x)
  then show ?case by simp
next
  case (cons x xs)
  have "f (concat (x # xs)) \<le> f x + f (concat xs)"
    using sub[of x "concat xs"] by simp
  then show ?case
    using cons.IH by simp
qed

lemma int_sum_list_counts:
  "(\<And>s. s \<in> set xs \<Longrightarrow> g s = int (f s)) \<Longrightarrow> int (sum_list (map f xs)) = sum_list (map g xs)"
  by (induction xs) auto

lemma budgetInv_step:
  assumes inv: "budgetInv c sents st" and lt: "fst st < length sents"
    and step: "chunkStep c sents (tokenSumsFrom 0 sents) st = Inr st'"
  shows "budgetInv c sents st'"
proof -
  let ?ts = "tokenSumsFrom 0 sents"
  obtain pos chs ws si w sl where
    st: "st = (pos, chs, ws)" and cs: "chooseSplit c sents ?ts pos = (si, w)"
    and lo: "pos < nat si" and hi: "nat si \<le> length sents" and nn: "0 \<le> si"
    and sl: "sl = take (nat si - pos) (drop pos sents)" and ne: "sl \<noteq> []"
    and res: "chunkStep c sents ?ts st =
       Inr (nextPos c sents pos si,
            chs @ [\<lparr>text = concat (map text sl), startIndex = startIndex (hd sl),
                     endIndex = endIndex (last sl),
                     tokenCount = int (countTokens (tokenizer c) (concat (map text sl))),
                     sentences = sl\<rparr>],
            ws @ w)"
    using chunkStep_cases[OF lt, of c ?ts] by metis
  define ch where "ch = \<lparr>text = concat (map text sl), startIndex = startIndex (hd sl),
                     endIndex = endIndex (last sl),
                     tokenCount = int (countTokens (tokenizer c) (concat (map text sl))),
                     sentences = sl\<rparr>"
  have st': "st' = (nextPos c sents pos si, chs @ [ch], ws @ w)"
    using step res by (simp add: ch_def)
  have pos: "pos < length sents"
    using lt st by simp
  have len: "int (length sl) = si - int pos"
    using hi lo by (simp add: sl)
  have sub: "set sl \<subseteq> set sents"
    unfolding sl by (meson set_drop_subset set_take_subset subset_trans)
  have sum: "sum_list (map tokenCount sl) = ?ts ! nat si - ?ts ! pos"
    unfolding sl using tokenSums_slice[of pos "nat si" sents 0] lo hi by simp
  have "si - int pos \<le> max 1 (minSentencesPerChunk c) \<or> ?ts ! nat si < ?ts ! pos + chunkSize c"
    using chooseSplit_budget[OF pos _ cs] by (simp add: length_tokenSumsFrom)
  then have "int (length sl) \<le> max 1 (minSentencesPerChunk c) \<or>
             sum_list (map tokenCount sl) < chunkSize c"
    using len sum by auto
  then show ?thesis
    using inv ne sub by (auto simp: budgetInv_def st st' ch_def)
qed

lemma chunkLoop_budget:
  "\<exists>pos chs ws. chunkLoop c sents (tokenSumsFrom 0 sents) (0, [], []) = Inr (chs, ws)
      \<and> length sents \<le> pos \<and> budgetInv c sents (pos, chs, ws)"
proof (rule chunkLoop_rule)
  show "budgetInv c sents (0, [], [])"
    by (simp add: budgetInv_def)
next
  fix st st'
  assume "budgetInv c sents st" "fst st < length sents"
    "chunkStep c sents (tokenSumsFrom 0 sents) st = Inr st'"
  then show "budgetInv c sents st'"
    by (rule budgetInv_step)
qed

section \<open>Sentence atomicity (C3)\<close>

text \<open>
  C3, as the code behaves: for a tokenizer that counts a concatenation as no more than
  the sum of its parts, a chunk whose \<open>tokenCount\<close> reaches \<open>chunkSize\<close> holds at most
  \<open>max(1, minSentencesPerChunk)\<close> sentences, and when it holds one, that sentence's own
  count reaches the budget. A chunk that the minimum forces to several sentences may
  exceed the budget.
\<close>

theorem C3_atomicity:
  assumes sub: "\<And>a b. countTokens (tokenizer c) (a @ b)
                    \<le> countTokens (tokenizer c) a + countTokens (tokenizer c) b"
    and run: "chunk c txt = Inr (chs, ws)" and mem: "ch \<in> set chs"
    and over: "chunkSize c \<le> tokenCount ch"
  shows "sentences ch \<noteq> [] \<and>
         int (length (sentences ch)) \<le> max 1 (minSentencesPerChunk c) \<and>
         (length (sentences ch) = 1 \<longrightarrow> chunkSize c \<le> tokenCount (hd (sentences ch)))"
proof -
  define sents where "sents = prepareSentences c txt"
  have nontriv: "\<not> (js_trim txt = [] \<or> sents = [])"
    using run mem by (auto simp: chunk_def Let_def sents_def split: if_splits)
  then have loop: "chunkLoop c sents (tokenSumsFrom 0 sents) (0, [], []) = Inr (chs, ws)"
    using run by (simp add: chunk_def Let_def sents_def)
  obtain pos where "budgetInv c sents (pos, chs, ws)"
    using chunkLoop_budget[of c sents] loop by auto
  then have ne: "sentences ch \<noteq> []" and sub_s: "set (sentences ch) \<subseteq> set sents"
    and tx: "text ch = concat (map text (sentences ch))"
    and cnt: "tokenCount ch = int (countTokens (tokenizer c) (text ch))"
    and bud: "int (length (sentences ch)) \<le> max 1 (minSentencesPerChunk c) \<or>
            sum_list (map tokenCount (sentences ch)) < chunkSize c"
    using mem by (auto simp: budgetInv_def)
  have each: "\<And>s. s \<in> set (sentences ch) \<Longrightarrow> tokenCount s = int (countTokens (tokenizer c) (text s))"
    using sub_s prepareSentences_count[of _ c "txt"] by (auto simp: sents_def)
  have "countTokens (tokenizer c) (concat (map text (sentences ch)))
          \<le> sum_list (map (countTokens (tokenizer c)) (map text (sentences ch)))"
    using count_concat_le[of "countTokens (tokenizer c)" "map text (sentences ch)"] sub ne by simp
  also have "int \<dots> = sum_list (map tokenCount (sentences ch))"
    using int_sum_list_counts[of "sentences ch" tokenCount "\<lambda>s. countTokens (tokenizer c) (text s)"] each
    by (simp add: o_def)
  finally have le: "tokenCount ch \<le> sum_list (map tokenCount (sentences ch))"
    using cnt tx by simp
  have few: "int (length (sentences ch)) \<le> max 1 (minSentencesPerChunk c)"
    using bud le over by auto
  have one: "length (sentences ch) = 1 \<longrightarrow> chunkSize c \<le> tokenCount (hd (sentences ch))"
  proof
    assume "length (sentences ch) = 1"
    then obtain s where s: "sentences ch = [s]"
      by (cases "sentences ch") auto
    then have "tokenCount s = tokenCount ch"
      using each[of s] cnt tx by simp
    then show "chunkSize c \<le> tokenCount (hd (sentences ch))"
      using over s by simp
  qed
  show ?thesis
    using ne few one by blast
qed

text \<open>
  A single sentence of nine tokens under a budget of seven is returned as one chunk.
\<close>

theorem C3_atomicity_witness:
  "chunk windowExample (str ''abcdefgh.'')
     = Inr ([\<lparr>text = str ''abcdefgh.'', startIndex = 0, endIndex = 9, tokenCount = 9,
               sentences = [\<lparr>text = str ''abcdefgh.'', startIndex = 0, endIndex = 9,
                             tokenCount = 9\<rparr>]\<rparr>], []) \<and>
   chunkSize windowExample = 7 \<and> minSentencesPerChunk windowExample = 1"
proof -
  let ?ch = "\<lparr>text = str ''abcdefgh.'', startIndex = 0, endIndex = 9, tokenCount = 9,
               sentences = [\<lparr>text = str ''abcdefgh.'', startIndex = 0, endIndex = 9,
                             tokenCount = 9\<rparr>]\<rparr>"
  have run: "chunk windowExample (str ''abcdefgh.'') = Inr ([?ch], [])"
    by code_simp
  have sub: "\<And>a b. countTokens (tokenizer windowExample) (a @ b)
                    \<le> countTokens (tokenizer windowExample) a + countTokens (tokenizer windowExample) b"
    by (simp add: windowExample_def characterTokenizer_def)
  have "sentences ?ch \<noteq> [] \<and>
         int (length (sentences ?ch)) \<le> max 1 (minSentencesPerChunk windowExample) \<and>
         (length (sentences ?ch) = 1 \<longrightarrow> chunkSize windowExample \<le> tokenCount (hd (sentences ?ch)))"
    by (rule C3_atomicity[OF sub run]) (simp_all add: windowExample_def)
  then show ?thesis
    using run by (simp add: windowExample_def)
qed

text \<open>
  With a minimum of two sentences and a budget of seven tokens, two sentences of four
  tokens each are returned as one chunk of eight tokens.
\<close>

theorem C3_counterexample:
  "(case chunk minExample (str ''abc.abc.'') of
      Inl e \<Rightarrow> []
    | Inr (chs, ws) \<Rightarrow> map (\<lambda>ch. (tokenCount ch, map tokenCount (sentences ch))) chs)
   = [(8, [4, 4])] \<and> chunkSize minExample = 7"
proof -
  have "(case chunk minExample (str ''abc.abc.'') of
      Inl e \<Rightarrow> []
    | Inr (chs, ws) \<Rightarrow> map (\<lambda>ch. (tokenCount ch, map tokenCount (sentences ch))) chs)
   = [(8, [4, 4])]"
    by code_simp
  then show ?thesis
    by (simp add: minExample_def)
qed

section \<open>Splitting and joining back\<close>

lemma split_from_nonempty: "split_from d cur s \<noteq> []"
  by (induction d cur s rule: split_from.induct) auto

lemma js_join_Cons: "xs \<noteq> [] \<Longrightarrow> js_join (x # xs) d = x @ d @ js_join xs d"
  by (cases xs) auto

lemma filter_join_split:
  "d \<noteq> [] \<Longrightarrow> filter P e = filter P d
     \<Longrightarrow> filter P (js_join (split_from d cur s) e) = filter P (cur @ s)"
proof (induction d cur s rule: split_from.induct)
  case (1 d cur)
  then show ?case by simp
next
  case (2 d cur x xs)
  show ?case
  proof (cases "prefix d (x # xs)")
    case True
    then have eq: "x # xs = d @ drop (length d) (x # xs)"
      by (metis append_eq_conv_conj prefix_def)
    have "filter P (js_join (split_from d cur (x # xs)) e)
            = filter P cur @ filter P e @ filter P (js_join (split_from d [] (drop (length d) (x # xs))) e)"
      using True 2(3) by (simp add: js_join_Cons split_from_nonempty)
    also have "\<dots> = filter P cur @ filter P d @ filter P (drop (length d) (x # xs))"
      using 2(1)[OF _ 2(3) 2(4)] True 2(3) 2(4) by simp
    also have "\<dots> = filter P (cur @ x # xs)"
      by (subst (2) eq) simp
    finally show ?thesis .
  next
    case False
    then show ?thesis
      using 2(2)[OF _ 2(3) 2(4)] by simp
  qed
qed

lemma filter_join_units:
  "filter P e = [] \<Longrightarrow> filter P (js_join (map (\<lambda>x. [x]) s) e) = filter P s"
proof (induction s)
  case Nil
  then show ?case by simp
next
  case (Cons x s)
  then show ?case by (cases s) auto
qed

lemma markDelim_filter:
  assumes "inc = Prev \<or> inc = Next"
  shows "filter (\<lambda>x. x \<noteq> z) (markDelim inc [z] t d) = filter (\<lambda>x. x \<noteq> z) t"
proof (cases "d = []")
  case True
  then show ?thesis
    using assms filter_join_units[of "\<lambda>x. x \<noteq> z" "[z]" t]
    by (auto simp: markDelim_def js_split_def)
next
  case False
  then show ?thesis
    using assms
      filter_join_split[of d "\<lambda>x. x \<noteq> z" "d @ [z]" "[]" t]
      filter_join_split[of d "\<lambda>x. x \<noteq> z" "[z] @ d" "[]" t]
    by (auto simp: markDelim_def js_split_def)
qed

lemma foldl_markDelim_filter:
  assumes "inc = Prev \<or> inc = Next"
  shows "filter (\<lambda>x. x \<noteq> z) (foldl (markDelim inc [z]) t ds) = filter (\<lambda>x. x \<noteq> z) t"
  by (induction ds arbitrary: t) (simp_all add: markDelim_filter[OF assms])

lemma concat_split_unit:
  "concat (split_from [z] cur s) = cur @ filter (\<lambda>x. x \<noteq> z) s"
  by (induction "[z]" cur s rule: split_from.induct) auto

lemma mergeShort_concat:
  "mergeShort m splits sents cur = (sents', cur')
     \<Longrightarrow> concat sents' @ cur' = concat sents @ cur @ concat splits"
  by (induction m splits sents cur rule: mergeShort.induct) (auto split: if_splits)

lemma mergeShort_nonempty:
  "mergeShort m splits sents cur = (sents', cur') \<Longrightarrow> [] \<notin> set sents \<Longrightarrow> [] \<notin> set sents'"
  by (induction m splits sents cur rule: mergeShort.induct) (auto split: if_splits)

lemma splitText_nonempty: "[] \<notin> set (splitText c txt)"
proof -
  obtain sents cur where
    ms: "mergeShort (minCharactersPerSentence c)
           (js_split (foldl (markDelim (includeDelim c) (sep c)) txt (delim c)) (sep c)) [] []
         = (sents, cur)"
    by (cases "mergeShort (minCharactersPerSentence c)
           (js_split (foldl (markDelim (includeDelim c) (sep c)) txt (delim c)) (sep c)) [] []") auto
  have "[] \<notin> set sents"
    using mergeShort_nonempty[OF ms] by simp
  then show ?thesis
    by (auto simp: splitText_def Let_def ms)
qed

lemma splitText_concat:
  assumes "includeDelim c = Prev \<or> includeDelim c = Next" and "sep c = [z]" and "z \<notin> set txt"
  shows "concat (splitText c txt) = txt"
proof -
  define t where "t = foldl (markDelim (includeDelim c) [z]) txt (delim c)"
  obtain sents cur where
    ms: "mergeShort (minCharactersPerSentence c) (js_split t [z]) [] [] = (sents, cur)"
    by (cases "mergeShort (minCharactersPerSentence c) (js_split t [z]) [] []") auto
  have "concat (splitText c txt) = concat sents @ cur"
    using ms by (auto simp: splitText_def Let_def assms(2) t_def)
  also have "\<dots> = concat (js_split t [z])"
    using mergeShort_concat[OF ms] by simp
  also have "\<dots> = filter (\<lambda>x. x \<noteq> z) t"
    by (simp add: js_split_def concat_split_unit)
  also have "\<dots> = filter (\<lambda>x. x \<noteq> z) txt"
    unfolding t_def by (rule foldl_markDelim_filter[OF assms(1)])
  also have "\<dots> = txt"
    using assms(3) by (auto simp: filter_id_conv)
  finally show ?thesis .
qed

lemma map_text_prepareSentences: "map text (prepareSentences c txt) = splitText c txt"
  by (rule nth_equalityI) (simp_all add: length_prepareSentences prepareSentences_nth)

lemma concatInv_step:
  assumes inv: "concatInv sents st" and lt: "fst st < length sents"
    and step: "chunkStep c sents ts st = Inr st'" and no: "chunkOverlap c \<le> 0"
  shows "concatInv sents st'"
proof -
  obtain pos chs ws si w sl where
    st: "st = (pos, chs, ws)"
    and lo: "pos < nat si" and hi: "nat si \<le> length sents"
    and sl: "sl = take (nat si - pos) (drop pos sents)"
    and res: "chunkStep c sents ts st =
       Inr (nextPos c sents pos si,
            chs @ [\<lparr>text = concat (map text sl), startIndex = startIndex (hd sl),
                     endIndex = endIndex (last sl),
                     tokenCount = int (countTokens (tokenizer c) (concat (map text sl))),
                     sentences = sl\<rparr>],
            ws @ w)"
    using chunkStep_cases[OF lt, of c ts] by metis
  have np: "nextPos c sents pos si = nat si"
    using no by (simp add: nextPos_def)
  have "take (nat si) sents = take pos sents @ sl"
    unfolding sl using lo by (metis le_add_diff_inverse less_imp_le_nat take_add)
  then have "concat (map text (take (nat si) sents)) = concat (map text (take pos sents)) @ concat (map text sl)"
    by simp
  then show ?thesis
    using inv step res hi by (auto simp: concatInv_def st np)
qed

lemma chunkLoop_concat:
  assumes "chunkOverlap c \<le> 0" and "chunkLoop c sents ts (0, [], []) = Inr (chs, ws)"
  shows "concat (map text chs) = concat (map text sents)"
proof -
  have "\<exists>pos chs ws. chunkLoop c sents ts (0, [], []) = Inr (chs, ws) \<and> length sents \<le> pos
           \<and> concatInv sents (pos, chs, ws)"
  proof (rule chunkLoop_rule)
    show "concatInv sents (0, [], [])"
      by (simp add: concatInv_def)
  next
    fix st st'
    assume "concatInv sents st" "fst st < length sents" "chunkStep c sents ts st = Inr st'"
    then show "concatInv sents st'"
      using assms(1) by (rule concatInv_step)
  qed
  then show ?thesis
    using assms(2) by (auto simp: concatInv_def)
qed

lemma chunk_total: "\<exists>chs ws. chunk c txt = Inr (chs, ws)"
proof -
  have "\<exists>pos chs ws. chunkLoop c sents ts (0, [], []) = Inr (chs, ws) \<and> length sents \<le> pos \<and> True"
    for sents ts
    by (rule chunkLoop_rule[where I = "\<lambda>st. True"]) simp_all
  then show ?thesis
    by (auto simp: chunk_def Let_def)
qed

section \<open>Reconstruction of the text (C4)\<close>

text \<open>
  C4, as the code behaves: with the inclusion policy \<open>prev\<close>, no overlap and a text
  that does not hold the sentinel, the texts of the chunks joined in order are the text
  itself, unless the text is blank: a blank text gives no chunk.
\<close>

theorem C4_reconstruction:
  assumes "includeDelim c = Prev" and "sep c = [0x2704]" and "0x2704 \<notin> set txt"
    and "chunkOverlap c = 0" and "chunk c txt = Inr (chs, ws)"
  shows "concat (map text chs) = (if js_trim txt = [] then [] else txt)"
proof (cases "js_trim txt = [] \<or> prepareSentences c txt = []")
  case True
  then have "chs = []"
    using assms(5) by (auto simp: chunk_def Let_def split: if_splits)
  moreover have "prepareSentences c txt = [] \<Longrightarrow> txt = []"
    using splitText_concat[of c "0x2704" "txt"] assms(1-3) map_text_prepareSentences[of c "txt"]
    by auto
  moreover have "js_trim [] = []"
    by (simp add: js_trim_def)
  ultimately show ?thesis
    using True by auto
next
  case False
  then have "chunkLoop c (prepareSentences c txt) (tokenSumsFrom 0 (prepareSentences c txt)) (0, [], [])
               = Inr (chs, ws)"
    using assms(5) by (simp add: chunk_def Let_def)
  then have "concat (map text chs) = concat (map text (prepareSentences c txt))"
    using chunkLoop_concat[of c] assms(4) by simp
  also have "\<dots> = txt"
    using splitText_concat[of c "0x2704" "txt"] assms(1-3) by (simp add: map_text_prepareSentences)
  finally show ?thesis
    using False by simp
qed

text \<open>
  The four sentences of the window example join back to the text.
\<close>

theorem C4_reconstruction_witness:
  "(case chunk windowExample (str ''ab.abc.abcd.a.'') of
      Inl e \<Rightarrow> []
    | Inr (chs, ws) \<Rightarrow> concat (map text chs)) = str ''ab.abc.abcd.a.''"
proof -
  obtain chs ws where run: "chunk windowExample (str ''ab.abc.abcd.a.'') = Inr (chs, ws)"
    using chunk_total[of windowExample "str ''ab.abc.abcd.a.''"] by blast
  have nb: "js_trim (str ''ab.abc.abcd.a.'') \<noteq> []"
    by code_simp
  have ns: "0x2704 \<notin> set (str ''ab.abc.abcd.a.'')"
    by code_simp
  have "concat (map text chs) = str ''ab.abc.abcd.a.''"
    using C4_reconstruction[OF _ _ ns _ run] nb by (simp add: windowExample_def)
  then show ?thesis
    using run by simp
qed

text \<open>
  With an overlap of three tokens the sentence \<open>b.\<close> is in both chunks, and the
  joined chunks are \<open>a.b.b.c.\<close>, not the text \<open>a.b.c.\<close>.
\<close>

theorem C4_counterexample:
  "(case chunk overlapExample (str ''a.b.c.'') of
      Inl e \<Rightarrow> []
    | Inr (chs, ws) \<Rightarrow> map text chs) = [str ''a.b.'', str ''b.c.'']"
  by code_simp

section \<open>Leaves of the recursion\<close>

lemma processMerged_all:
  assumes "\<And>split count off r. (split, count) \<in> set ms \<Longrightarrow> cs < count
              \<Longrightarrow> recurse split off = Inr r \<Longrightarrow> \<forall>ch \<in> set r. Q ch"
    and "\<And>split count off. (split, count) \<in> set ms \<Longrightarrow> \<not> cs < count
              \<Longrightarrow> Q (makeChunk split count off)"
    and "processMerged recurse cs ms off0 = Inr r"
  shows "\<forall>ch \<in> set r. Q ch"
  using assms
proof (induction ms arbitrary: off0 r)
  case Nil
  then show ?case by simp
next
  case (Cons m ms)
  obtain split count where m: "m = (split, count)"
    by (cases m) auto
  obtain others where others: "processMerged recurse cs ms (off0 + length split) = Inr others"
    using Cons.prems(3) by (auto simp: m split: if_splits sum.splits)
  have rest: "\<forall>ch \<in> set others. Q ch"
    using Cons.IH[OF _ _ others] Cons.prems(1,2) by (meson list.set_intros(2))
  show ?case
  proof (cases "cs < count")
    case True
    then obtain sub where sub: "recurse split off0 = Inr sub" and r: "r = sub @ others"
      using Cons.prems(3) others by (auto simp: m split: sum.splits)
    have "\<forall>ch \<in> set sub. Q ch"
      using Cons.prems(1)[of split count off0 sub] True sub by (simp add: m)
    then show ?thesis
      using rest r by auto
  next
    case False
    then have r: "r = makeChunk split count off0 # others"
      using Cons.prems(3) others by (simp add: m)
    have "Q (makeChunk split count off0)"
      using Cons.prems(2)[of split count off0] False by (simp add: m)
    then show ?thesis
      using rest r by auto
  qed
qed

lemma recursiveChunk_leaf_counts:
  "recursiveChunk w c t level off = Inr r
     \<Longrightarrow> \<forall>ch \<in> set r. tokenCount ch \<le> chunkSize c \<or> tokenCount ch = estimateTokenCount c (text ch)"
proof (induction w c t level off arbitrary: r rule: recursiveChunk.induct)
  case (1 w c t level startOffset)
  show ?case
  proof (cases "t = [] \<or> length (rules c) \<le> level")
    case True
    then show ?thesis
      using "1.prems" by (subst (asm) recursiveChunk.simps) (auto simp: makeChunk_def split: if_splits)
  next
    case False
    then obtain currRule merged counts where
      lv: "getLevel (rules c) level = Some currRule"
      and mg: "mergeLevel w c currRule (splitTextR w c t currRule)
                 (map (estimateTokenCount c) (splitTextR w c t currRule)) = Inr (merged, counts)"
      and pm: "processMerged (\<lambda>split off. recursiveChunk w c split (level + 1) off)
                 (chunkSize c) (zip merged counts) startOffset = Inr r"
      using "1.prems"
      by (subst (asm) recursiveChunk.simps) (auto split: option.splits sum.splits prod.splits)
    show ?thesis
    proof (rule processMerged_all[OF _ _ pm])
      fix split count off r'
      assume "recursiveChunk w c split (level + 1) off = Inr r'"
      then show "\<forall>ch \<in> set r'. tokenCount ch \<le> chunkSize c \<or> tokenCount ch = estimateTokenCount c (text ch)"
        using "1.IH"[OF _ _ lv mg refl] False by simp
    next
      fix split count off
      assume "\<not> chunkSize c < count"
      then show "tokenCount (makeChunk split count off) \<le> chunkSize c \<or>
                 tokenCount (makeChunk split count off) = estimateTokenCount c (text (makeChunk split count off))"
        by (simp add: makeChunk_def)
    qed
  qed
qed

lemma in_zip_map: "(a, b) \<in> set (zip xs (map f xs)) \<Longrightarrow> a \<in> set xs \<and> b = f a"
  by (induction xs) auto

lemma recursiveChunk_within_budget:
  "delimiters (last (rules c)) = None \<Longrightarrow> \<not> whitespace (last (rules c))
     \<Longrightarrow> \<forall>s. list_all (\<lambda>p. estimateTokenCount c p \<le> chunkSize c)
                 (decodeBatch (tokenizer c)
                    (tokenWindowsFrom (encode (tokenizer c) s) (chunkSize c) 0))
     \<Longrightarrow> level < length (rules c) \<Longrightarrow> recursiveChunk w c t level off = Inr r
     \<Longrightarrow> \<forall>ch \<in> set r. tokenCount ch \<le> chunkSize c"
proof (induction w c t level off arbitrary: r rule: recursiveChunk.induct)
  case (1 w c t level startOffset)
  note tl = "1.prems"(1,2) and bud = "1.prems"(3) and lt = "1.prems"(4) and run = "1.prems"(5)
  show ?case
  proof (cases "t = []")
    case True
    then show ?thesis
      using run by (subst (asm) recursiveChunk.simps) auto
  next
    case False
    have lv: "getLevel (rules c) level = Some (rules c ! level)"
      using lt by (simp add: getLevel_def)
    define currRule where "currRule = rules c ! level"
    obtain merged counts where
      mg: "mergeLevel w c currRule (splitTextR w c t currRule)
                 (map (estimateTokenCount c) (splitTextR w c t currRule)) = Inr (merged, counts)"
      and pm: "processMerged (\<lambda>split off. recursiveChunk w c split (level + 1) off)
                 (chunkSize c) (zip merged counts) startOffset = Inr r"
      using run False lt lv unfolding currRule_def
      by (subst (asm) recursiveChunk.simps) (auto split: sum.splits prod.splits)
    show ?thesis
    proof (cases "Suc level = length (rules c)")
      case True
      then have last: "currRule = last (rules c)"
        unfolding currRule_def using lt by (metis diff_Suc_1 last_conv_nth length_0_conv not_less_zero)
      have splits: "splitTextR w c t currRule
              = decodeBatch (tokenizer c) (tokenWindowsFrom (encode (tokenizer c) t) (chunkSize c) 0)"
        using tl by (simp add: splitTextR_def last)
      have mc: "merged = splitTextR w c t currRule"
               "counts = map (estimateTokenCount c) (splitTextR w c t currRule)"
        using mg tl by (auto simp: mergeLevel_def last)
      have small: "\<And>split count. (split, count) \<in> set (zip merged counts) \<Longrightarrow> \<not> chunkSize c < count"
      proof -
        fix split count
        assume "(split, count) \<in> set (zip merged counts)"
        then have "split \<in> set (splitTextR w c t currRule)" "count = estimateTokenCount c split"
          using in_zip_map[of split count "splitTextR w c t currRule" "estimateTokenCount c"]
          by (simp_all add: mc)
        then show "\<not> chunkSize c < count"
          using bud by (fastforce simp: splits list_all_iff)
      qed
      show ?thesis
      proof (rule processMerged_all[OF _ _ pm])
        fix split count off r'
        assume "(split, count) \<in> set (zip merged counts)" "chunkSize c < count"
        then show "\<forall>ch \<in> set r'. tokenCount ch \<le> chunkSize c"
          using small by blast
      next
        fix split count off
        assume "\<not> chunkSize c < count"
        then show "tokenCount (makeChunk split count off) \<le> chunkSize c"
          by (simp add: makeChunk_def)
      qed
    next
      case notlast: False
      then have next_lt: "level + 1 < length (rules c)"
        using lt by simp
      have nle: "\<not> length (rules c) \<le> level"
        using lt by simp
      show ?thesis
      proof (rule processMerged_all[OF _ _ pm])
        fix split count off r'
        assume "recursiveChunk w c split (level + 1) off = Inr r'"
        then show "\<forall>ch \<in> set r'. tokenCount ch \<le> chunkSize c"
          using "1.IH"[OF False nle lv[folded currRule_def] mg refl tl bud next_lt] by simp
      next
        fix split count off
        assume "\<not> chunkSize c < count"
        then show "tokenCount (makeChunk split count off) \<le> chunkSize c"
          by (simp add: makeChunk_def)
      qed
    qed
  qed
qed

lemma length_js_slice_window:
  "0 \<le> i \<Longrightarrow> 0 \<le> cs \<Longrightarrow> length (js_slice xs i (i + cs)) \<le> nat cs"
  by (auto simp: js_slice_def Let_def min_def max_def)

lemma tokenWindows_lengths:
  "0 \<le> i \<Longrightarrow> \<forall>win \<in> set (tokenWindowsFrom encoded cs i). length win \<le> nat cs"
proof (induction encoded cs i rule: tokenWindowsFrom.induct)
  case (1 encoded cs i)
  show ?case
  proof (cases "i < int (length encoded) \<and> 0 < cs")
    case True
    then have "\<forall>win \<in> set (tokenWindowsFrom encoded cs (i + cs)). length win \<le> nat cs"
      using "1.IH" "1.prems" by simp
    then show ?thesis
      using True "1.prems" length_js_slice_window[where i = i and xs = encoded and cs = cs]
      by (subst tokenWindowsFrom.simps) simp
  next
    case False
    then show ?thesis
      by (subst tokenWindowsFrom.simps) auto
  qed
qed

lemma character_windows_within_budget:
  assumes "tokenizer c = characterTokenizer" and "0 < chunkSize c"
  shows "list_all (\<lambda>p. estimateTokenCount c p \<le> chunkSize c)
           (decodeBatch (tokenizer c) (tokenWindowsFrom (encode (tokenizer c) s) (chunkSize c) 0))"
proof -
  have "estimateTokenCount c (map of_nat win) \<le> chunkSize c"
    if "win \<in> set (tokenWindowsFrom (map unat s) (chunkSize c) 0)" for win
  proof -
    have len: "int (length win) \<le> chunkSize c"
      using tokenWindows_lengths[of 0 "map unat s" "chunkSize c"] that assms(2) by auto
    then have "max 1 ((2 * int (length win)) div 13) \<le> chunkSize c"
      using assms(2) by auto
    then show ?thesis
      using len by (auto simp: estimateTokenCount_def assms(1) characterTokenizer_def)
  qed
  then show ?thesis
    by (auto simp: list_all_iff assms(1) characterTokenizer_def)
qed

section \<open>Token budget of the recursive chunker (C1)\<close>

text \<open>
  C1, as the code behaves: every leaf chunk of \<open>recursiveChunk\<close> has a
  \<open>tokenCount\<close> within \<open>chunkSize\<close>, or it is a leaf of the base case and
  reports the estimate of its text. When the last rule is the token-window level and
  every decoded window has an estimate within \<open>chunkSize\<close>, every leaf is within
  \<open>chunkSize\<close>. The pieces of the token-window level are never merged; a piece whose
  estimate exceeds \<open>chunkSize\<close> is chunked again at the next level.
\<close>

theorem C1_token_budget:
  assumes "recursiveChunk w c t level off = Inr r"
  shows "(\<forall>ch \<in> set r. tokenCount ch \<le> chunkSize c
            \<or> tokenCount ch = estimateTokenCount c (text ch)) \<and>
         (level < length (rules c) \<and> delimiters (last (rules c)) = None \<and>
          \<not> whitespace (last (rules c)) \<and>
          (\<forall>s. list_all (\<lambda>p. estimateTokenCount c p \<le> chunkSize c)
                 (decodeBatch (tokenizer c)
                    (tokenWindowsFrom (encode (tokenizer c) s) (chunkSize c) 0)))
          \<longrightarrow> (\<forall>ch \<in> set r. tokenCount ch \<le> chunkSize c)) \<and>
         (delimiters rule = None \<and> \<not> whitespace rule
          \<longrightarrow> mergeLevel w c rule splits counts = Inr (splits, counts))"
proof (intro conjI impI)
  show "\<forall>ch \<in> set r. tokenCount ch \<le> chunkSize c
            \<or> tokenCount ch = estimateTokenCount c (text ch)"
    using assms by (rule recursiveChunk_leaf_counts)
next
  assume h: "level < length (rules c) \<and> delimiters (last (rules c)) = None \<and>
          \<not> whitespace (last (rules c)) \<and>
          (\<forall>s. list_all (\<lambda>p. estimateTokenCount c p \<le> chunkSize c)
                 (decodeBatch (tokenizer c)
                    (tokenWindowsFrom (encode (tokenizer c) s) (chunkSize c) 0)))"
  show "\<forall>ch \<in> set r. tokenCount ch \<le> chunkSize c"
    by (rule recursiveChunk_within_budget[OF _ _ _ _ assms]) (use h in auto)
next
  assume "delimiters rule = None \<and> \<not> whitespace rule"
  then show "mergeLevel w c rule splits counts = Inr (splits, counts)"
    by (simp add: mergeLevel_def)
qed

text \<open>
  Twelve code units under the character tokenizer and a budget of five tokens: windows
  of 5, 5 and 2 tokens.
\<close>

theorem C1_token_budget_witness:
  "recursiveChunk unusedWasm tokenFive (str ''abcdefghijkl'') 0 0
     = Inr [makeChunk (str ''abcde'') 5 0, makeChunk (str ''fghij'') 5 5, makeChunk (str ''kl'') 2 10]
   \<and> chunkSize tokenFive = 5"
proof -
  let ?r = "[makeChunk (str ''abcde'') 5 0, makeChunk (str ''fghij'') 5 5, makeChunk (str ''kl'') 2 10]"
  have run: "recursiveChunk unusedWasm tokenFive (str ''abcdefghijkl'') 0 0 = Inr ?r"
    by code_simp
  have bud: "\<forall>s. list_all (\<lambda>p. estimateTokenCount tokenFive p \<le> chunkSize tokenFive)
                 (decodeBatch (tokenizer tokenFive)
                    (tokenWindowsFrom (encode (tokenizer tokenFive) s) (chunkSize tokenFive) 0))"
    using character_windows_within_budget[of tokenFive] by (simp add: tokenFive_def)
  have "\<forall>ch \<in> set ?r. tokenCount ch \<le> chunkSize tokenFive"
    using C1_token_budget[OF run, of tokenLevel] bud by (simp add: tokenFive_def tokenLevel_def)
  then show ?thesis
    using run by (simp add: tokenFive_def)
qed

text \<open>
  The one-token window \<open>international\<close> has the length estimate 2 against a budget
  of 1: it is chunked again, reaches the base case and is returned with
  \<open>tokenCount = 2\<close>.
\<close>

theorem C1_counterexample:
  "RecursiveChunker_chunk unusedWasm longToken (str ''international'')
     = Inr [\<lparr>text = str ''international'', startIndex = 0, endIndex = 13, tokenCount = 2\<rparr>]
   \<and> chunkSize longToken = 1
   \<and> encode (tokenizer longToken) (str ''international'') = [0]"
proof -
  have "RecursiveChunker_chunk unusedWasm longToken (str ''international'')
     = Inr [\<lparr>text = str ''international'', startIndex = 0, endIndex = 13, tokenCount = 2\<rparr>]"
    by code_simp
  moreover have "encode (tokenizer longToken) (str ''international'') = [0]"
    by code_simp
  ultimately show ?thesis
    by (simp add: longToken_def)
qed

section \<open>Offsets of the chunks\<close>

lemma concat_take_Suc:
  "i < length xs \<Longrightarrow> length (concat (take (Suc i) xs)) = length (concat (take i xs)) + length (xs ! i)"
  by (simp add: take_Suc_conv_app_nth)

lemma concat_take_strict:
  assumes "[] \<notin> set xs" and "i < j" and "j \<le> length xs"
  shows "length (concat (take i xs)) < length (concat (take j xs))"
  using assms(2,3)
proof (induction j)
  case 0
  then show ?case by simp
next
  case (Suc j)
  have "xs ! j \<noteq> []"
    using assms(1) Suc.prems(2) by (metis Suc_le_lessD nth_mem)
  then have step: "length (concat (take j xs)) < length (concat (take (Suc j) xs))"
    using Suc.prems(2) by (simp add: concat_take_Suc)
  show ?case
  proof (cases "i = j")
    case True
    then show ?thesis using step by simp
  next
    case False
    then have "length (concat (take i xs)) < length (concat (take j xs))"
      using Suc by simp
    then show ?thesis using step by simp
  qed
qed

lemma sentence_offsets:
  assumes "i < length (prepareSentences c t)"
  shows "startIndex (prepareSentences c t ! i) = length (concat (take i (splitText c t)))"
    and "endIndex (prepareSentences c t ! i) = length (concat (take (Suc i) (splitText c t)))"
  using assms by (simp_all add: length_prepareSentences prepareSentences_nth concat_take_Suc)

lemma sentence_starts_increase:
  assumes "i < j" and "j < length (prepareSentences c t)"
  shows "startIndex (prepareSentences c t ! i) < startIndex (prepareSentences c t ! j)"
  using assms concat_take_strict[OF splitText_nonempty, of i j c "t"]
  by (simp add: sentence_offsets length_prepareSentences)

lemma sentence_start_before_end:
  assumes "i \<le> j" and "j < length (prepareSentences c t)"
  shows "startIndex (prepareSentences c t ! i) < endIndex (prepareSentences c t ! j)"
  using assms concat_take_strict[OF splitText_nonempty, of i "Suc j" c "t"]
  by (simp add: sentence_offsets length_prepareSentences)

lemma orderInv_step:
  assumes inv: "orderInv sents st" and lt: "fst st < length sents"
    and step: "chunkStep c sents ts st = Inr st'"
    and inc: "\<And>i j. i < j \<Longrightarrow> j < length sents \<Longrightarrow> startIndex (sents ! i) < startIndex (sents ! j)"
    and sbe: "\<And>i j. i \<le> j \<Longrightarrow> j < length sents \<Longrightarrow> startIndex (sents ! i) < endIndex (sents ! j)"
  shows "orderInv sents st'"
proof -
  obtain pos chs ws si w sl where
    st: "st = (pos, chs, ws)"
    and lo: "pos < nat si" and hi: "nat si \<le> length sents"
    and sl: "sl = take (nat si - pos) (drop pos sents)" and ne: "sl \<noteq> []"
    and res: "chunkStep c sents ts st =
       Inr (nextPos c sents pos si,
            chs @ [\<lparr>text = concat (map text sl), startIndex = startIndex (hd sl),
                     endIndex = endIndex (last sl),
                     tokenCount = int (countTokens (tokenizer c) (concat (map text sl))),
                     sentences = sl\<rparr>],
            ws @ w)"
    and adv: "pos < nextPos c sents pos si"
    using chunkStep_cases[OF lt, of c ts] by metis
  define ch where "ch = \<lparr>text = concat (map text sl), startIndex = startIndex (hd sl),
                     endIndex = endIndex (last sl),
                     tokenCount = int (countTokens (tokenizer c) (concat (map text sl))),
                     sentences = sl\<rparr>"
  have st': "st' = (nextPos c sents pos si, chs @ [ch], ws @ w)"
    using step res by (simp add: ch_def)
  have pos: "pos < length sents"
    using lt st by simp
  have len: "length sl = nat si - pos"
    using hi by (simp add: sl)
  have hd: "hd sl = sents ! pos"
    using ne lo pos by (simp add: sl hd_conv_nth)
  have "last sl = sl ! (nat si - pos - 1)"
    using ne len by (simp add: last_conv_nth)
  also have "\<dots> = sents ! (nat si - 1)"
    using lo hi by (simp add: sl)
  finally have last: "last sl = sents ! (nat si - 1)" .
  have start: "startIndex ch = startIndex (sents ! pos)"
    by (simp add: ch_def hd)
  have "startIndex (sents ! pos) < endIndex (sents ! (nat si - 1))"
    using sbe[of pos "nat si - 1"] lo hi by simp
  then have good: "startIndex ch < endIndex ch"
    by (simp add: ch_def hd last)
  have before: "\<forall>a \<in> set chs. startIndex a < startIndex ch"
  proof
    fix a assume "a \<in> set chs"
    then obtain p where "p < pos" "startIndex a = startIndex (sents ! p)"
      using inv st by (auto simp: orderInv_def)
    then show "startIndex a < startIndex ch"
      using inc[of p pos] pos start by simp
  qed
  have old: "\<forall>a \<in> set chs. startIndex a < endIndex a \<and>
           (\<exists>p < nextPos c sents pos si. p < length sents \<and> startIndex a = startIndex (sents ! p))"
  proof
    fix a assume "a \<in> set chs"
    then obtain p where "startIndex a < endIndex a" "p < pos" "p < length sents"
      "startIndex a = startIndex (sents ! p)"
      using inv st by (auto simp: orderInv_def)
    moreover from this adv have "p < nextPos c sents pos si"
      by simp
    ultimately show "startIndex a < endIndex a \<and>
           (\<exists>p < nextPos c sents pos si. p < length sents \<and> startIndex a = startIndex (sents ! p))"
      by blast
  qed
  have new: "\<exists>p < nextPos c sents pos si. p < length sents \<and> startIndex ch = startIndex (sents ! p)"
    using adv pos start by auto
  have "sorted_wrt (\<lambda>a b. startIndex a < startIndex b) (chs @ [ch])"
    using inv st before by (simp add: orderInv_def sorted_wrt_append)
  then show ?thesis
    using old new good by (auto simp: orderInv_def st')
qed

lemma chunk_ordered:
  assumes "chunk c t = Inr (chs, ws)"
  shows "(\<forall>ch \<in> set chs. startIndex ch < endIndex ch) \<and>
         sorted_wrt (\<lambda>a b. startIndex a < startIndex b) chs"
proof (cases "js_trim t = [] \<or> prepareSentences c t = []")
  case True
  then have "chs = []"
    using assms by (auto simp: chunk_def Let_def split: if_splits)
  then show ?thesis by simp
next
  case False
  define sents where "sents = prepareSentences c t"
  have loop: "chunkLoop c sents (tokenSumsFrom 0 sents) (0, [], []) = Inr (chs, ws)"
    using assms False by (simp add: chunk_def Let_def sents_def)
  have "\<exists>pos chs ws. chunkLoop c sents (tokenSumsFrom 0 sents) (0, [], []) = Inr (chs, ws)
           \<and> length sents \<le> pos \<and> orderInv sents (pos, chs, ws)"
  proof (rule chunkLoop_rule)
    show "orderInv sents (0, [], [])"
      by (simp add: orderInv_def)
  next
    fix st st'
    assume "orderInv sents st" "fst st < length sents"
      "chunkStep c sents (tokenSumsFrom 0 sents) st = Inr st'"
    then show "orderInv sents st'"
      unfolding sents_def
      by (rule orderInv_step) (simp_all add: sentence_starts_increase sentence_start_before_end)
  qed
  then show ?thesis
    using loop by (auto simp: orderInv_def)
qed

lemma inSpan_append:
  "inSpan lo mid r \<Longrightarrow> inSpan mid hi r' \<Longrightarrow> lo \<le> mid \<Longrightarrow> mid \<le> hi \<Longrightarrow> inSpan lo hi (r @ r')"
  by (fastforce simp: inSpan_def sorted_wrt_append)

lemma inSpan_strict:
  assumes "inSpan lo hi r"
  shows "(\<forall>ch \<in> set r. startIndex ch < endIndex ch) \<and>
         (\<forall>i. Suc i < length r \<longrightarrow> startIndex (r ! i) < startIndex (r ! Suc i))"
proof -
  have "startIndex (r ! i) < startIndex (r ! Suc i)" if "Suc i < length r" for i
  proof -
    have "endIndex (r ! i) \<le> startIndex (r ! Suc i)"
      using assms that by (simp add: inSpan_def sorted_wrt_iff_nth_less)
    moreover have "startIndex (r ! i) < endIndex (r ! i)"
      using assms that by (simp add: inSpan_def)
    ultimately show ?thesis by simp
  qed
  then show ?thesis
    using assms by (auto simp: inSpan_def)
qed

lemma processMerged_inSpan:
  assumes "\<And>split count off r. (split, count) \<in> set ms \<Longrightarrow> cs < count \<Longrightarrow> recurse split off = Inr r
              \<Longrightarrow> inSpan off (off + length split) r"
    and "\<And>split count. (split, count) \<in> set ms \<Longrightarrow> split \<noteq> []"
    and "processMerged recurse cs ms off0 = Inr r"
  shows "inSpan off0 (off0 + length (concat (map fst ms))) r"
  using assms
proof (induction ms arbitrary: off0 r)
  case Nil
  then show ?case by (simp add: inSpan_def)
next
  case (Cons m ms)
  obtain split count where m: "m = (split, count)"
    by (cases m) auto
  obtain others where others: "processMerged recurse cs ms (off0 + length split) = Inr others"
    using Cons.prems(3) by (auto simp: m split: if_splits sum.splits)
  have rest: "inSpan (off0 + length split) (off0 + length split + length (concat (map fst ms))) others"
    using Cons.IH[OF _ _ others] Cons.prems(1,2) by (meson list.set_intros(2))
  have ne: "split \<noteq> []"
    using Cons.prems(2)[of split count] by (simp add: m)
  have "\<exists>sub. r = sub @ others \<and> inSpan off0 (off0 + length split) sub"
  proof (cases "cs < count")
    case True
    then obtain sub where sub: "recurse split off0 = Inr sub" and r: "r = sub @ others"
      using Cons.prems(3) others by (auto simp: m split: sum.splits)
    have "inSpan off0 (off0 + length split) sub"
      using Cons.prems(1)[of split count off0 sub] sub True by (simp add: m)
    then show ?thesis
      using r by blast
  next
    case False
    then have r: "r = [makeChunk split count off0] @ others"
      using Cons.prems(3) others by (simp add: m)
    have "inSpan off0 (off0 + length split) [makeChunk split count off0]"
      using ne by (simp add: inSpan_def makeChunk_def)
    then show ?thesis
      using r by blast
  qed
  then obtain sub where r: "r = sub @ others" and sub: "inSpan off0 (off0 + length split) sub"
    by blast
  have "inSpan off0 (off0 + length split + length (concat (map fst ms))) (sub @ others)"
    using inSpan_append[OF sub rest] by simp
  then show ?case
    by (simp add: r m add.assoc)
qed

lemma inSpan_mono: "inSpan lo hi r \<Longrightarrow> hi \<le> hi' \<Longrightarrow> inSpan lo hi' r"
  by (fastforce simp: inSpan_def)

lemma concat_fst_zip_le: "length (concat (map fst (zip xs ys))) \<le> length (concat xs)"
proof (induction xs arbitrary: ys)
  case Nil
  then show ?case by simp
next
  case (Cons x xs)
  then show ?case
    by (cases ys) (auto intro: le_trans trans_le_add2)
qed

lemma runSplits_step:
  assumes "t \<noteq> []" and "level < length (rules c)"
    and "mergeLevel w c (rules c ! level) (splitTextR w c t (rules c ! level))
           (map (estimateTokenCount c) (splitTextR w c t (rules c ! level))) = Inr (merged, counts)"
    and "list_all pieceFits (runSplits w c t level)"
  shows "[] \<notin> set merged" and "length (concat merged) \<le> length t"
    and "\<And>split count. (split, count) \<in> set (zip merged counts) \<Longrightarrow> chunkSize c < count
            \<Longrightarrow> list_all pieceFits (runSplits w c split (level + 1))"
proof -
  have eq: "runSplits w c t level =
      (t, merged) # concat (map (\<lambda>(split, tokenCount).
                              if tokenCount > chunkSize c then runSplits w c split (level + 1)
                              else [])
                           (zip merged counts))"
    using assms(1-3) by (subst runSplits.simps) (simp add: getLevel_def)
  show "[] \<notin> set merged" "length (concat merged) \<le> length t"
    using assms(4) unfolding eq by (simp_all add: pieceFits_def)
  show "list_all pieceFits (runSplits w c split (level + 1))"
    if "(split, count) \<in> set (zip merged counts)" "chunkSize c < count" for split count
    using assms(4) that unfolding eq by (fastforce simp: list_all_iff)
qed

lemma recursiveChunk_inSpan:
  "list_all pieceFits (runSplits w c t level) \<Longrightarrow> recursiveChunk w c t level off = Inr r
     \<Longrightarrow> inSpan off (off + length t) r"
proof (induction w c t level off arbitrary: r rule: recursiveChunk.induct)
  case (1 w c t level startOffset)
  note fit = "1.prems"(1) and run = "1.prems"(2)
  show ?case
  proof (cases "t = [] \<or> length (rules c) \<le> level")
    case True
    then show ?thesis
      using run
      by (subst (asm) recursiveChunk.simps) (auto simp: makeChunk_def inSpan_def split: if_splits)
  next
    case False
    then have lv: "getLevel (rules c) level = Some (rules c ! level)"
      by (simp add: getLevel_def)
    define currRule where "currRule = rules c ! level"
    obtain merged counts where
      mg: "mergeLevel w c currRule (splitTextR w c t currRule)
                 (map (estimateTokenCount c) (splitTextR w c t currRule)) = Inr (merged, counts)"
      and pm: "processMerged (\<lambda>split off. recursiveChunk w c split (level + 1) off)
                 (chunkSize c) (zip merged counts) startOffset = Inr r"
      using run False lv unfolding currRule_def
      by (subst (asm) recursiveChunk.simps) (auto split: sum.splits prod.splits)
    have ne: "t \<noteq> []" and lt: "level < length (rules c)"
      using False by auto
    note step = runSplits_step[OF ne lt mg[unfolded currRule_def] fit]
    have "inSpan startOffset (startOffset + length (concat (map fst (zip merged counts)))) r"
    proof (rule processMerged_inSpan[OF _ _ pm])
      fix split count off r'
      assume mem: "(split, count) \<in> set (zip merged counts)" and big: "chunkSize c < count"
        and sub: "recursiveChunk w c split (level + 1) off = Inr r'"
      show "inSpan off (off + length split) r'"
        using "1.IH"[OF _ _ lv[folded currRule_def] mg refl step(3)[OF mem big] sub] False by simp
    next
      fix split count
      assume "(split, count) \<in> set (zip merged counts)"
      then have "split \<in> set merged"
        by (meson in_set_zipE)
      then show "split \<noteq> []"
        using step(1) by auto
    qed
    moreover have "length (concat (map fst (zip merged counts))) \<le> length t"
      using concat_fst_zip_le[of merged counts] step(2) by simp
    ultimately show ?thesis
      using inSpan_mono by (metis add_le_cancel_left)
  qed
qed

lemma js_slice_window_nonempty:
  "0 \<le> i \<Longrightarrow> i < int (length xs) \<Longrightarrow> 0 < cs \<Longrightarrow> js_slice xs i (i + cs) \<noteq> []"
  by (auto simp: js_slice_def Let_def min_def)

lemma tokenWindows_nonempty:
  "0 \<le> i \<Longrightarrow> [] \<notin> set (tokenWindowsFrom encoded cs i)"
proof (induction encoded cs i rule: tokenWindowsFrom.induct)
  case (1 encoded cs i)
  show ?case
  proof (cases "i < int (length encoded) \<and> 0 < cs")
    case True
    then have "[] \<notin> set (tokenWindowsFrom encoded cs (i + cs))"
      using "1.IH" "1.prems" by simp
    then show ?thesis
      using True "1.prems" js_slice_window_nonempty[where i = i and xs = encoded and cs = cs]
      by (subst tokenWindowsFrom.simps) auto
  next
    case False
    then show ?thesis
      by (subst tokenWindowsFrom.simps) auto
  qed
qed

lemma tokenWindows_total:
  "0 \<le> i \<Longrightarrow> int (length (concat (tokenWindowsFrom encoded cs i))) \<le> max 0 (int (length encoded) - i)"
proof (induction encoded cs i rule: tokenWindowsFrom.induct)
  case (1 encoded cs i)
  show ?case
  proof (cases "i < int (length encoded) \<and> 0 < cs")
    case True
    then have ih: "int (length (concat (tokenWindowsFrom encoded cs (i + cs))))
                     \<le> max 0 (int (length encoded) - (i + cs))"
      using "1.IH" "1.prems" by simp
    have "int (length (js_slice encoded i (i + cs))) = min cs (int (length encoded) - i)"
      using True "1.prems" by (auto simp: js_slice_def Let_def min_def)
    then show ?thesis
      using True ih by (subst tokenWindowsFrom.simps) (auto simp: min_def max_def)
  next
    case False
    then show ?thesis
      by (subst tokenWindowsFrom.simps) auto
  qed
qed

lemma token_level_fits:
  assumes "tokenizer c = characterTokenizer"
    and "delimiters rule = None" and "\<not> whitespace rule"
    and mg: "mergeLevel w c rule (splitTextR w c t rule)
          (map (estimateTokenCount c) (splitTextR w c t rule)) = Inr (merged, counts)"
  shows "pieceFits (t, merged)"
proof -
  have merged: "merged = map (map of_nat) (tokenWindowsFrom (map unat t) (chunkSize c) 0)"
    using mg assms(2,3) by (auto simp: mergeLevel_def splitTextR_def assms(1) characterTokenizer_def)
  have "[] \<notin> set merged"
    using tokenWindows_nonempty[of 0 "map unat t" "chunkSize c"] by (auto simp: merged)
  moreover have "length (concat merged) = length (concat (tokenWindowsFrom (map unat t) (chunkSize c) 0))"
    by (simp add: merged length_concat o_def)
  moreover have "length (concat (tokenWindowsFrom (map unat t) (chunkSize c) 0)) \<le> length t"
    using tokenWindows_total[of 0 "map unat t" "chunkSize c"] by simp
  ultimately show ?thesis
    by (simp add: pieceFits_def)
qed

lemma character_runSplits:
  "tokenizer c = characterTokenizer
     \<Longrightarrow> list_all (\<lambda>rule. delimiters rule = None \<and> \<not> whitespace rule) (rules c)
     \<Longrightarrow> list_all pieceFits (runSplits w c t level)"
proof (induction w c t level rule: runSplits.induct)
  case (1 w c t level)
  show ?case
  proof (cases "t = [] \<or> length (rules c) \<le> level")
    case True
    then show ?thesis
      by (subst runSplits.simps) auto
  next
    case False
    then have lv: "getLevel (rules c) level = Some (rules c ! level)"
      by (simp add: getLevel_def)
    define currRule where "currRule = rules c ! level"
    have tok: "delimiters currRule = None" "\<not> whitespace currRule"
      using "1.prems"(2) False by (auto simp: list_all_length currRule_def)
    show ?thesis
    proof (cases "mergeLevel w c currRule (splitTextR w c t currRule)
                 (map (estimateTokenCount c) (splitTextR w c t currRule))")
      case (Inl e)
      then show ?thesis
        using False lv by (subst runSplits.simps) (simp add: currRule_def)
    next
      case (Inr p)
      obtain merged counts where p: "p = (merged, counts)"
        by (cases p) auto
      note mg = Inr[unfolded p]
      have here: "pieceFits (t, merged)"
        using token_level_fits[OF "1.prems"(1) tok mg] .
      have sub: "list_all pieceFits (runSplits w c split (level + 1))"
        if "(split, count) \<in> set (zip merged counts)" "chunkSize c < count" for split count
        using "1.IH"[OF _ _ lv[folded currRule_def] mg refl that(1) refl that(2) "1.prems"] False
        by simp
      have eq: "runSplits w c t level =
        (t, merged) # concat (map (\<lambda>(split, tokenCount).
                              if tokenCount > chunkSize c then runSplits w c split (level + 1)
                              else [])
                           (zip merged counts))"
        using False lv mg by (subst runSplits.simps) (simp add: currRule_def)
      show ?thesis
        unfolding eq using here sub by (auto simp: list_all_iff)
    qed
  qed
qed

lemma character_piecesFit:
  assumes "tokenizer c = characterTokenizer"
    and "list_all (\<lambda>rule. delimiters rule = None \<and> \<not> whitespace rule) (rules c)"
  shows "piecesFit w c t"
  unfolding piecesFit_def using assms by (rule character_runSplits)

section \<open>Offset monotonicity (C6)\<close>

text \<open>
  C6, as the code behaves: in the chunks of the sentence chunker, always, and in the
  chunks of the recursive chunker, when in every split of the run the merged pieces are
  non-empty and together no longer than the text they split, every chunk has
  \<open>startIndex < endIndex\<close> and the start of every chunk is strictly greater than
  the start of the chunk before it.
\<close>

theorem C6_offsets:
  "(chunk c t = Inr (chs, ws) \<longrightarrow>
      (\<forall>ch \<in> set chs. startIndex ch < endIndex ch) \<and>
      (\<forall>i. Suc i < length chs \<longrightarrow> startIndex (chs ! i) < startIndex (chs ! Suc i))) \<and>
   (piecesFit w rc t' \<and> RecursiveChunker_chunk w rc t' = Inr r \<longrightarrow>
      (\<forall>ch \<in> set r. startIndex ch < endIndex ch) \<and>
      (\<forall>i. Suc i < length r \<longrightarrow> startIndex (r ! i) < startIndex (r ! Suc i)))"
proof (intro conjI impI)
  assume run: "chunk c t = Inr (chs, ws)"
  show "\<forall>ch \<in> set chs. startIndex ch < endIndex ch"
    using chunk_ordered[OF run] by simp
  show "\<forall>i. Suc i < length chs \<longrightarrow> startIndex (chs ! i) < startIndex (chs ! Suc i)"
    using chunk_ordered[OF run] by (simp add: sorted_wrt_iff_nth_less)
next
  assume h: "piecesFit w rc t' \<and> RecursiveChunker_chunk w rc t' = Inr r"
  then have span: "inSpan 0 (0 + length t') r"
    using recursiveChunk_inSpan[of w rc t' 0 0 r]
    by (simp add: RecursiveChunker_chunk_def piecesFit_def)
  show "\<forall>ch \<in> set r. startIndex ch < endIndex ch"
    using inSpan_strict[OF span] by simp
  show "\<forall>i. Suc i < length r \<longrightarrow> startIndex (r ! i) < startIndex (r ! Suc i)"
    using inSpan_strict[OF span] by simp
qed

text \<open>
  The sentence chunker on the window example, and the recursive chunker with a whitespace
  level above the token-window level: the first word exceeds the budget and is cut into
  token windows, the other words are chunks with the space put back before them.
\<close>

theorem C6_offsets_witness:
  "(case chunk windowExample (str ''ab.abc.abcd.a.'') of
      Inl e \<Rightarrow> []
    | Inr (chs, ws) \<Rightarrow> map (\<lambda>ch. (startIndex ch, endIndex ch)) chs)
     = [(0, 3), (3, 7), (7, 12), (12, 14)] \<and>
   piecesFit greedyWasm wordsThenTokens (str ''abcdef gh ij'') \<and>
   (case RecursiveChunker_chunk greedyWasm wordsThenTokens (str ''abcdef gh ij'') of
      Inl e \<Rightarrow> []
    | Inr r \<Rightarrow> map (\<lambda>ch. (text ch, startIndex ch, endIndex ch)) r)
     = [(str ''abc'', 0, 3), (str ''def'', 3, 6), (str '' gh'', 6, 9), (str '' ij'', 9, 12)]"
proof -
  have a: "(case chunk windowExample (str ''ab.abc.abcd.a.'') of
      Inl e \<Rightarrow> []
    | Inr (chs, ws) \<Rightarrow> map (\<lambda>ch. (startIndex ch, endIndex ch)) chs)
     = [(0, 3), (3, 7), (7, 12), (12, 14)]"
    by code_simp
  have b: "(case RecursiveChunker_chunk greedyWasm wordsThenTokens (str ''abcdef gh ij'') of
      Inl e \<Rightarrow> []
    | Inr r \<Rightarrow> map (\<lambda>ch. (text ch, startIndex ch, endIndex ch)) r)
     = [(str ''abc'', 0, 3), (str ''def'', 3, 6), (str '' gh'', 6, 9), (str '' ij'', 9, 12)]"
    by code_simp
  have fit: "piecesFit greedyWasm wordsThenTokens (str ''abcdef gh ij'')"
    by code_simp
  obtain chs ws where run: "chunk windowExample (str ''ab.abc.abcd.a.'') = Inr (chs, ws)"
    using chunk_total[of windowExample "str ''ab.abc.abcd.a.''"] by blast
  obtain r where rr: "RecursiveChunker_chunk greedyWasm wordsThenTokens (str ''abcdef gh ij'') = Inr r"
    using b by (cases "RecursiveChunker_chunk greedyWasm wordsThenTokens (str ''abcdef gh ij'')") auto
  note C6_offsets[of windowExample "str ''ab.abc.abcd.a.''" chs ws greedyWasm wordsThenTokens
      "str ''abcdef gh ij''" r]
  then show ?thesis
    using a b fit run rr by simp
qed

text \<open>
  With a decoder that strips leading spaces, the window of the single space decodes to
  the empty string: the second chunk is empty (\<open>startIndex = endIndex = 1\<close>) and the
  third chunk starts at 1 as well.
\<close>

theorem C6_counterexample:
  "RecursiveChunker_chunk unusedWasm strippedSpace (str ''a b'')
     = Inr [\<lparr>text = str ''a'', startIndex = 0, endIndex = 1, tokenCount = 1\<rparr>,
            \<lparr>text = [], startIndex = 1, endIndex = 1, tokenCount = 0\<rparr>,
            \<lparr>text = str ''b'', startIndex = 1, endIndex = 2, tokenCount = 1\<rparr>]"
  by code_simp

section \<open>Termination (C9)\<close>

lemma nextPos_chooseSplit:
  assumes "pos < length sents"
  shows "pos < nextPos c sents pos (fst (chooseSplit c sents ts pos)) \<and>
         nextPos c sents pos (fst (chooseSplit c sents ts pos)) \<le> length sents"
proof -
  have lo: "int pos < fst (chooseSplit c sents ts pos)"
    using assms by (rule chooseSplit_gt)
  have hi: "fst (chooseSplit c sents ts pos) \<le> int (length sents)"
    using assms by (rule chooseSplit_le)
  have "nextPos c sents pos (fst (chooseSplit c sents ts pos)) \<le> nat (fst (chooseSplit c sents ts pos))"
    using lo by (rule nextPos_le)
  then show ?thesis
    using nextPos_gt[OF lo, of c sents] hi by linarith
qed

text \<open>
  C9: the loops of the sentence chunker (the chunking loop, the overlap walk and the
  bisection) and the recursion of the recursive chunker (with its token-window loop)
  terminate on every input: every argument is in the domain of its recursion. In the
  chunking loop the next cursor is strictly greater than \<open>pos\<close> and at most the number
  of sentences; the overlap walk never returns an index below \<open>pos\<close>, so the next start
  \<open>overlapIdx + 1\<close> is beyond \<open>pos\<close>; \<open>chunk\<close> returns its chunks. In the recursion
  a level at or beyond the depth of the rules is the base case, and a chunker that was
  constructed has a positive \<open>chunkSize\<close>, so the token-window loop advances.
\<close>

theorem C9_termination:
  "chunkLoop_dom (c, sents, ts, st) \<and>
   overlapWalk_dom (c, sents, pos, i, n) \<and>
   bisectLeft_dom (arr, v, lo, hi) \<and>
   (pos < length sents \<longrightarrow>
      pos < nextPos c sents pos (fst (chooseSplit c sents ts pos)) \<and>
      nextPos c sents pos (fst (chooseSplit c sents ts pos)) \<le> length sents) \<and>
   (int pos \<le> i \<longrightarrow> int pos \<le> overlapWalk c sents pos i n) \<and>
   (\<exists>chs ws. chunk c t = Inr (chs, ws)) \<and>
   recursiveChunk_dom (w, rc, t, level, off) \<and>
   tokenWindowsFrom_dom (encoded, cs, k) \<and>
   (length (rules rc) \<le> level \<longrightarrow>
      recursiveChunk w rc t level off
        = (if t = [] then Inr [] else Inr [makeChunk t (estimateTokenCount rc t) off])) \<and>
   (RecursiveChunker_new tk cs rs mcc = Inr rc' \<longrightarrow> 0 < chunkSize rc')"
proof -
  have "chunkLoop_dom (c, sents, ts, st)"
    using chunkLoop_terminates by blast
  moreover have "overlapWalk_dom (c, sents, pos, i, n)"
    using overlapWalk_terminates by blast
  moreover have "bisectLeft_dom (arr, v, lo, hi)"
    using bisectLeft_terminates by blast
  moreover have "pos < length sents \<longrightarrow>
      pos < nextPos c sents pos (fst (chooseSplit c sents ts pos)) \<and>
      nextPos c sents pos (fst (chooseSplit c sents ts pos)) \<le> length sents"
    using nextPos_chooseSplit by blast
  moreover have "int pos \<le> i \<longrightarrow> int pos \<le> overlapWalk c sents pos i n"
    using overlapWalk_ge by blast
  moreover have "\<exists>chs ws. chunk c t = Inr (chs, ws)"
    by (rule chunk_total)
  moreover have "recursiveChunk_dom (w, rc, t, level, off)"
    using recursiveChunk_terminates by blast
  moreover have "tokenWindowsFrom_dom (encoded, cs, k)"
    using tokenWindowsFrom_terminates by blast
  moreover have "length (rules rc) \<le> level \<longrightarrow>
      recursiveChunk w rc t level off
        = (if t = [] then Inr [] else Inr [makeChunk t (estimateTokenCount rc t) off])"
    by (simp add: recursiveChunk.simps)
  moreover have "RecursiveChunker_new tk cs rs mcc = Inr rc' \<longrightarrow> 0 < chunkSize rc'"
    by (auto simp: RecursiveChunker_new_def split: if_splits)
  ultimately show ?thesis
    by blast
qed

text \<open>
  The first iteration on the window example, a base case, and a constructed chunker.
\<close>

theorem C9_termination_witness:
  "length (prepareSentences windowExample (str ''ab.abc.abcd.a.'')) = 4 \<and>
   0 < nextPos windowExample (prepareSentences windowExample (str ''ab.abc.abcd.a.'')) 0
         (fst (chooseSplit windowExample (prepareSentences windowExample (str ''ab.abc.abcd.a.''))
                 (tokenSumsFrom 0 (prepareSentences windowExample (str ''ab.abc.abcd.a.''))) 0)) \<and>
   int 0 \<le> overlapWalk windowExample (prepareSentences windowExample (str ''ab.abc.abcd.a.'')) 0 1 0 \<and>
   recursiveChunk unusedWasm noLevels (str ''ab'') 0 0
     = Inr [makeChunk (str ''ab'') (estimateTokenCount noLevels (str ''ab'')) 0] \<and>
   RecursiveChunker_new characterTokenizer 512 [tokenLevel] 24 = Inr tokenOnly \<and>
   0 < chunkSize tokenOnly"
proof -
  let ?sents = "prepareSentences windowExample (str ''ab.abc.abcd.a.'')"
  have len: "length ?sents = 4"
    by code_simp
  have ne: "str ''ab'' \<noteq> []"
    by (simp add: str_def)
  have new: "RecursiveChunker_new characterTokenizer 512 [tokenLevel] 24 = Inr tokenOnly"
    by (simp add: RecursiveChunker_new_def tokenOnly_def)
  show ?thesis
    using C9_termination[of windowExample ?sents "tokenSumsFrom 0 ?sents" "(0, [], [])" 0 1 0
        "[]" 0 0 0 "str ''ab''" unusedWasm noLevels 0 0 "[]" 512 0 characterTokenizer
        "[tokenLevel]" 24 tokenOnly]
      len ne new
    by (simp add: noLevels_def)
qed

end
